theory Spec2Isabelle
  imports Main "HOL-Library.Multiset" "HOL-Library.Product_Lexorder"
begin

section \<open>Shared data model\<close>

text \<open>
  Both generators keep a board as a Python list of rows, each row a list of ints, with
  \<open>0\<close> for an empty cell. The 9x9 generator keeps its region map in the same shape.
  Indices are always produced by \<open>range\<close>, so they are naturals here. Every read
  \<open>g ! r ! c\<close> below is the Python read \<open>g[r][c]\<close> on a board of the right shape;
  on a ragged board Python raises \<open>IndexError\<close>, and the theorems therefore assume
  the shape (\<open>wf_grid\<close>) wherever a read could leave it.
\<close>

type_synonym grid = "int list list"
type_synonym cell = "nat \<times> nat"

definition wf_grid :: "nat \<Rightarrow> grid \<Rightarrow> bool" where
  "wf_grid n g = (length g = n \<and> list_all (\<lambda>row. length row = n) g)"

definition set_cell :: "grid \<Rightarrow> nat \<Rightarrow> nat \<Rightarrow> int \<Rightarrow> grid" where
  \<comment> \<open>\<open>g[r][c] = v\<close>\<close>
  "set_cell g r c v = g[r := (g ! r)[c := v]]"

definition cells_of :: "nat \<Rightarrow> cell list" where
  \<comment> \<open>\<open>[(r, c) for r in range(n) for c in range(n)]\<close>, the row-major scan order\<close>
  "cells_of n = concat (map (\<lambda>r. map (\<lambda>c. (r, c)) [0..<n]) [0..<n])"

subsection \<open>The random source\<close>

text \<open>
  The programs draw from Python's process-wide generator. The model threads the
  generator explicitly: a list of raw draws, consumed from the front (an exhausted list
  keeps answering \<open>0\<close>). \<open>randbelow n\<close> is \<open>random._randbelow(n)\<close>, and
  \<open>shuffle\<close> is CPython's \<open>random.shuffle\<close>:
  \<^verbatim>\<open>for i in reversed(range(1, len(x))): j = randbelow(i + 1); x[i], x[j] = x[j], x[i]\<close>.
  Every theorem below is stated for all random sources.
\<close>

type_synonym rng = "nat list"

definition randbelow :: "nat \<Rightarrow> rng \<Rightarrow> nat \<times> rng" where
  "randbelow n rng = (case rng of [] \<Rightarrow> (0, []) | x # rest \<Rightarrow> (x mod n, rest))"

fun shuffle_from :: "nat \<Rightarrow> 'a list \<Rightarrow> rng \<Rightarrow> 'a list \<times> rng" where
  "shuffle_from 0 xs rng = (xs, rng)"
| "shuffle_from (Suc i) xs rng =
     (case randbelow (Suc (Suc i)) rng of
        (j, rng') \<Rightarrow> shuffle_from i (xs[Suc i := xs ! j, j := xs ! Suc i]) rng')"

definition shuffle :: "'a list \<Rightarrow> rng \<Rightarrow> 'a list \<times> rng" where
  "shuffle xs rng = shuffle_from (length xs - 1) xs rng"

section \<open>The 9x9 jigsaw generator (jigsaw_sudoku.py)\<close>

definition GRID_SIZE :: nat where
  "GRID_SIZE = 9"

definition DIGITS :: "int list" where
  "DIGITS = map int [1..<GRID_SIZE + 1]"

definition region_index :: "grid \<Rightarrow> nat \<Rightarrow> nat \<Rightarrow> int" where
  "region_index regions r c = regions ! r ! c"

definition used_symbols :: "grid \<Rightarrow> grid \<Rightarrow> nat \<Rightarrow> nat \<Rightarrow> int list" where
  \<comment> \<open>the contents of the local set \<open>used\<close> of \<open>compute_candidates\<close>, in insertion order\<close>
  "used_symbols grid regions r c =
     filter (\<lambda>n. n \<noteq> 0) (grid ! r)
     @ map (\<lambda>i. grid ! i ! c) (filter (\<lambda>i. grid ! i ! c \<noteq> 0) [0..<GRID_SIZE])
     @ map (\<lambda>(rr, cc). grid ! rr ! cc)
         (filter (\<lambda>(rr, cc). regions ! rr ! cc = region_index regions r c \<and> grid ! rr ! cc \<noteq> 0)
            (cells_of GRID_SIZE))"

definition compute_candidates :: "grid \<Rightarrow> grid \<Rightarrow> nat \<Rightarrow> nat \<Rightarrow> int list" where
  "compute_candidates grid regions r c =
     (if grid ! r ! c \<noteq> 0 then []
      else filter (\<lambda>d. d \<notin> set (used_symbols grid regions r c)) DIGITS)"

subsection \<open>Cell selection\<close>

text \<open>
  \<open>find_unassigned_with_mrv\<close>: the two nested \<open>for\<close> loops are one scan over the
  cells in row-major order. \<open>Inl (r, c)\<close> is the early \<open>return (r, c, [])\<close> at the
  first empty cell without a candidate; \<open>Inr best\<close> is the state of \<open>best\<close> and
  \<open>best_cands\<close> when the loops end.
\<close>

fun mrv_scan :: "grid \<Rightarrow> grid \<Rightarrow> cell list \<Rightarrow> (cell \<times> int list) option
    \<Rightarrow> cell + (cell \<times> int list) option" where
  "mrv_scan g regions [] best = Inr best"
| "mrv_scan g regions ((r, c) # rest) best =
     (if g ! r ! c = 0 then
        (let cands = compute_candidates g regions r c in
         if cands = [] then Inl (r, c)
         else if (case best of None \<Rightarrow> True | Some (_, best_cands) \<Rightarrow> length cands < length best_cands)
         then mrv_scan g regions rest (Some ((r, c), cands))
         else mrv_scan g regions rest best)
      else mrv_scan g regions rest best)"

definition find_unassigned_with_mrv :: "grid \<Rightarrow> grid \<Rightarrow> rng \<Rightarrow> (nat \<times> nat \<times> int list) option \<times> rng" where
  "find_unassigned_with_mrv g regions rng =
     (case mrv_scan g regions (cells_of GRID_SIZE) None of
        Inl (r, c) \<Rightarrow> (Some (r, c, []), rng)
      | Inr None \<Rightarrow> (None, rng)
      | Inr (Some ((r, c), best_cands)) \<Rightarrow>
          (case shuffle best_cands rng of (cands, rng') \<Rightarrow> (Some (r, c, cands), rng')))"

subsection \<open>Construction-mode search\<close>

text \<open>
  The closure \<open>dfs\<close> of \<open>solve_backtracking\<close> mutates the local board \<open>g\<close> and
  returns a bool. The model passes the board and the random source through every call
  and returns them with the bool, so that the board a failed call leaves behind can be
  compared with the board it was given. The first argument bounds the depth of the call
  stack: \<open>None\<close> means that the bound was hit. Each frame fills one empty cell before it
  recurses, so \<open>GRID_SIZE * GRID_SIZE + 1\<close> frames are enough (lemma
  \<open>dfs_solve_returns\<close> below).

  \<open>try_candidates\<close> is the loop \<open>for d in cands\<close>; its first argument is the
  recursive call.
\<close>

fun try_candidates :: "(grid \<Rightarrow> rng \<Rightarrow> (bool \<times> grid \<times> rng) option) \<Rightarrow> nat \<Rightarrow> nat \<Rightarrow> int list
    \<Rightarrow> grid \<Rightarrow> rng \<Rightarrow> (bool \<times> grid \<times> rng) option" where
  "try_candidates rec r c [] g rng = Some (False, g, rng)"
| "try_candidates rec r c (d # ds) g rng =
     (case rec (set_cell g r c d) rng of
        None \<Rightarrow> None
      | Some (found, g', rng') \<Rightarrow>
          if found then Some (True, g', rng')
          else try_candidates rec r c ds (set_cell g' r c 0) rng')"

primrec dfs_solve :: "nat \<Rightarrow> grid \<Rightarrow> grid \<Rightarrow> rng \<Rightarrow> (bool \<times> grid \<times> rng) option" where
  "dfs_solve 0 regions g rng = None"
| "dfs_solve (Suc depth) regions g rng =
     (case find_unassigned_with_mrv g regions rng of
        (None, rng') \<Rightarrow> Some (True, g, rng')
      | (Some (r, c, cands), rng') \<Rightarrow>
          if cands = [] then Some (False, g, rng')
          else try_candidates (dfs_solve depth regions) r c cands g rng')"

definition max_depth :: nat where
  "max_depth = GRID_SIZE * GRID_SIZE + 1"

definition solve_backtracking :: "grid \<Rightarrow> grid \<Rightarrow> rng \<Rightarrow> (grid option \<times> rng) option" where
  \<comment> \<open>outer \<open>None\<close>: depth bound hit; inner \<open>None\<close>: the Python \<open>None\<close>\<close>
  "solve_backtracking grid regions rng =
     (case dfs_solve max_depth regions grid rng of
        None \<Rightarrow> None
      | Some (found, g, rng') \<Rightarrow> Some (if found then Some g else None, rng'))"

subsection \<open>Counting-mode search\<close>

text \<open>
  The closure \<open>dfs\<close> of \<open>count_solutions\<close> also updates the nonlocal \<open>count\<close>,
  which is a third component of the state here (\<open>cnt\<close>).
\<close>

fun count_candidates :: "(int \<Rightarrow> grid \<Rightarrow> rng \<Rightarrow> (bool \<times> int \<times> grid \<times> rng) option) \<Rightarrow> int \<Rightarrow> nat \<Rightarrow> nat
    \<Rightarrow> int list \<Rightarrow> int \<Rightarrow> grid \<Rightarrow> rng \<Rightarrow> (bool \<times> int \<times> grid \<times> rng) option" where
  "count_candidates rec limit r c [] cnt g rng = Some (False, cnt, g, rng)"
| "count_candidates rec limit r c (d # ds) cnt g rng =
     (case rec cnt (set_cell g r c d) rng of
        None \<Rightarrow> None
      | Some (stop, cnt', g', rng') \<Rightarrow>
          if stop \<and> cnt' \<ge> limit then Some (True, cnt', g', rng')
          else count_candidates rec limit r c ds cnt' (set_cell g' r c 0) rng')"

primrec dfs_count :: "nat \<Rightarrow> grid \<Rightarrow> int \<Rightarrow> int \<Rightarrow> grid \<Rightarrow> rng \<Rightarrow> (bool \<times> int \<times> grid \<times> rng) option" where
  "dfs_count 0 regions limit cnt g rng = None"
| "dfs_count (Suc depth) regions limit cnt g rng =
     (if cnt \<ge> limit then Some (True, cnt, g, rng)
      else
        (case find_unassigned_with_mrv g regions rng of
           (None, rng') \<Rightarrow> Some (cnt + 1 \<ge> limit, cnt + 1, g, rng')
         | (Some (r, c, cands), rng') \<Rightarrow>
             if cands = [] then Some (False, cnt, g, rng')
             else count_candidates (dfs_count depth regions limit) limit r c cands cnt g rng'))"

definition count_solutions :: "grid \<Rightarrow> grid \<Rightarrow> int \<Rightarrow> rng \<Rightarrow> (int \<times> rng) option" where
  "count_solutions grid regions limit rng =
     (case dfs_count max_depth regions limit 0 grid rng of
        None \<Rightarrow> None
      | Some (stop, cnt, g, rng') \<Rightarrow> Some (cnt, rng'))"

subsection \<open>Solution synthesis and clue removal\<close>

datatype error = RuntimeError | IndexError | KeyError

fun retry_solve :: "nat \<Rightarrow> grid \<Rightarrow> grid \<Rightarrow> grid option \<Rightarrow> rng \<Rightarrow> (grid option \<times> rng) option" where
  \<comment> \<open>\<open>while sol is None and tries < 5\<close>, with \<open>5 - tries\<close> as first argument\<close>
  "retry_solve 0 empty_grid regions sol rng = Some (sol, rng)"
| "retry_solve (Suc left) empty_grid regions sol rng =
     (case sol of
        Some g \<Rightarrow> Some (sol, rng)
      | None \<Rightarrow>
          (case solve_backtracking empty_grid regions rng of
             None \<Rightarrow> None
           | Some (sol', rng') \<Rightarrow> retry_solve left empty_grid regions sol' rng'))"

definition generate_full_solution :: "grid \<Rightarrow> rng \<Rightarrow> ((error + grid) \<times> rng) option" where
  "generate_full_solution regions rng =
     (let empty_grid = replicate GRID_SIZE (replicate GRID_SIZE 0) in
      case solve_backtracking empty_grid regions rng of
        None \<Rightarrow> None
      | Some (sol, rng1) \<Rightarrow>
          (case retry_solve 5 empty_grid regions sol rng1 of
             None \<Rightarrow> None
           | Some (None, rng2) \<Rightarrow> Some (Inl RuntimeError, rng2)
           | Some (Some g, rng2) \<Rightarrow> Some (Inr g, rng2)))"

fun remove_clues :: "grid \<Rightarrow> int \<Rightarrow> cell list \<Rightarrow> grid \<Rightarrow> int \<Rightarrow> rng \<Rightarrow> (grid \<times> rng) option" where
  \<comment> \<open>the loop \<open>for r, c in cells\<close> of \<open>generate_puzzle_from_solution\<close>\<close>
  "remove_clues regions target_givens [] grid current_givens rng = Some (grid, rng)"
| "remove_clues regions target_givens ((r, c) # cells) grid current_givens rng =
     (if current_givens \<le> target_givens then Some (grid, rng)
      else
        (let saved = grid ! r ! c; grid1 = set_cell grid r c 0 in
         case count_solutions grid1 regions 2 rng of
           None \<Rightarrow> None
         | Some (sols, rng') \<Rightarrow>
             if sols = 1 then remove_clues regions target_givens cells grid1 (current_givens - 1) rng'
             else remove_clues regions target_givens cells (set_cell grid1 r c saved) current_givens rng'))"

definition generate_puzzle_from_solution :: "grid \<Rightarrow> grid \<Rightarrow> int \<Rightarrow> rng \<Rightarrow> (grid \<times> rng) option" where
  "generate_puzzle_from_solution solution regions target_givens rng =
     (case shuffle (cells_of GRID_SIZE) rng of
        (cells, rng') \<Rightarrow>
          remove_clues regions target_givens cells solution (int (GRID_SIZE * GRID_SIZE)) rng')"

subsection \<open>Difficulty handling of the command line\<close>

definition DIFFICULTY_GIVENS :: "int \<rightharpoonup> int" where
  "DIFFICULTY_GIVENS = [1 \<mapsto> 45, 2 \<mapsto> 40, 3 \<mapsto> 36, 4 \<mapsto> 32, 5 \<mapsto> 28, 6 \<mapsto> 26]"

definition main_difficulty :: "int \<Rightarrow> int" where
  \<comment> \<open>\<open>d = max(1, min(6, args.difficulty))\<close>\<close>
  "main_difficulty difficulty = max 1 (min 6 difficulty)"

definition main_target_givens :: "int \<Rightarrow> error + int" where
  \<comment> \<open>\<open>DIFFICULTY_GIVENS.get(d, DIFFICULTY_GIVENS[3])\<close>; a missing key 3 would raise\<close>
  "main_target_givens difficulty =
     (case DIFFICULTY_GIVENS 3 of
        None \<Rightarrow> Inl KeyError
      | Some dflt \<Rightarrow>
          (case DIFFICULTY_GIVENS (main_difficulty difficulty) of
             None \<Rightarrow> Inr dflt
           | Some t \<Rightarrow> Inr t))"

section \<open>The 6x6 generator (MiniSudokuGenerator6x6.py)\<close>

text \<open>
  The class \<open>Sudoku6x6\<close> keeps the board, the saved solution, the difficulty and the
  puzzle id as attributes; its methods mutate \<open>self.board\<close> in place. The methods are
  modelled on the board they mutate, and \<open>generate\<close> on the whole object.
\<close>

record sudoku6x6 =
  board :: grid
  puzzle_id :: "nat list option"
  difficulty :: int
  solution :: "grid option"

definition reset :: "sudoku6x6 \<Rightarrow> sudoku6x6" where
  \<comment> \<open>\<open>reset\<close> leaves the attribute \<open>solution\<close> as it is\<close>
  "reset self = self\<lparr>board := replicate 6 (replicate 6 0), puzzle_id := None, difficulty := 0\<rparr>"

definition new_sudoku :: sudoku6x6 where
  \<comment> \<open>\<open>Sudoku6x6()\<close>: the constructor calls \<open>reset\<close> on an object with no solution yet\<close>
  "new_sudoku = reset \<lparr>board = [], puzzle_id = None, difficulty = 0, solution = None\<rparr>"

definition number_is_valid :: "grid \<Rightarrow> nat \<Rightarrow> nat \<Rightarrow> int \<Rightarrow> bool" where
  "number_is_valid b row column number =
     (list_all (\<lambda>i. \<not> (b ! row ! i = number \<or> b ! i ! column = number)) [0..<6]
      \<and> (let start_column = column div 3 * 3; start_row = row div 2 * 2 in
         list_all (\<lambda>i. list_all (\<lambda>j. b ! (i + start_row) ! (j + start_column) \<noteq> number) [0..<3]) [0..<2]))"

fun first_empty :: "grid \<Rightarrow> cell list \<Rightarrow> cell option" where
  \<comment> \<open>the scan \<open>for r in range(6): for c in range(6): if self.board[r][c] == 0\<close>\<close>
  "first_empty b [] = None"
| "first_empty b ((r, c) # rest) = (if b ! r ! c = 0 then Some (r, c) else first_empty b rest)"

text \<open>
  \<open>solve\<close> is a generator that yields \<open>True\<close> once per full board it reaches; its
  only caller builds the list of everything it yields, so the model returns that list,
  with the board and the random source the exhausted generator leaves behind. As for
  the 9x9 search, the first argument bounds the depth of the recursion.
\<close>

fun solve_digits :: "(grid \<Rightarrow> rng \<Rightarrow> (bool list \<times> grid \<times> rng) option) \<Rightarrow> nat \<Rightarrow> nat \<Rightarrow> int list
    \<Rightarrow> grid \<Rightarrow> rng \<Rightarrow> (bool list \<times> grid \<times> rng) option" where
  "solve_digits rec r c [] b rng = Some ([], b, rng)"
| "solve_digits rec r c (n # ns) b rng =
     (if number_is_valid b r c n then
        (case rec (set_cell b r c n) rng of
           None \<Rightarrow> None
         | Some (ys, b', rng') \<Rightarrow>
             (case solve_digits rec r c ns (set_cell b' r c 0) rng' of
                None \<Rightarrow> None
              | Some (zs, b'', rng'') \<Rightarrow> Some (ys @ zs, b'', rng'')))
      else solve_digits rec r c ns b rng)"

primrec solve :: "nat \<Rightarrow> grid \<Rightarrow> rng \<Rightarrow> (bool list \<times> grid \<times> rng) option" where
  "solve 0 b rng = None"
| "solve (Suc depth) b rng =
     (case first_empty b (cells_of 6) of
        None \<Rightarrow> Some ([True], b, rng)
      | Some (r, c) \<Rightarrow>
          (case shuffle (map int [1..<7]) rng of
             (digits, rng') \<Rightarrow> solve_digits (solve depth) r c digits b rng'))"

fun fill_digits :: "(grid \<Rightarrow> rng \<Rightarrow> (bool \<times> grid \<times> rng) option) \<Rightarrow> nat \<Rightarrow> nat \<Rightarrow> int list
    \<Rightarrow> grid \<Rightarrow> rng \<Rightarrow> (bool \<times> grid \<times> rng) option" where
  "fill_digits rec r c [] b rng = Some (False, b, rng)"
| "fill_digits rec r c (n # ns) b rng =
     (if number_is_valid b r c n then
        (case rec (set_cell b r c n) rng of
           None \<Rightarrow> None
         | Some (ok, b', rng') \<Rightarrow>
             if ok then Some (True, b', rng')
             else fill_digits rec r c ns (set_cell b' r c 0) rng')
      else fill_digits rec r c ns b rng)"

primrec fill_solution :: "nat \<Rightarrow> grid \<Rightarrow> rng \<Rightarrow> (bool \<times> grid \<times> rng) option" where
  "fill_solution 0 b rng = None"
| "fill_solution (Suc depth) b rng =
     (case first_empty b (cells_of 6) of
        None \<Rightarrow> Some (True, b, rng)
      | Some (r, c) \<Rightarrow>
          (case shuffle (map int [1..<7]) rng of
             (digits, rng') \<Rightarrow> fill_digits (fill_solution depth) r c digits b rng'))"

definition max_depth6 :: nat where
  "max_depth6 = 6 * 6 + 1"

text \<open>
  \<open>fill_box\<close>: the inner \<open>helper(idx, avail)\<close> recurses over \<open>cells[idx:]\<close>, which is
  the list argument here; \<open>box_loop\<close> is its loop \<open>for i, n in enumerate(avail)\<close>.
\<close>

fun box_loop :: "(int list \<Rightarrow> grid \<Rightarrow> rng \<Rightarrow> bool \<times> grid \<times> rng) \<Rightarrow> nat \<Rightarrow> nat \<Rightarrow> int list \<Rightarrow> nat list
    \<Rightarrow> grid \<Rightarrow> rng \<Rightarrow> bool \<times> grid \<times> rng" where
  "box_loop rec r c avail [] b rng = (False, b, rng)"
| "box_loop rec r c avail (i # is) b rng =
     (let n = avail ! i in
      if number_is_valid b r c n then
        (case rec (take i avail @ drop (Suc i) avail) (set_cell b r c n) rng of
           (ok, b', rng') \<Rightarrow>
             if ok then (True, b', rng')
             else box_loop rec r c avail is (set_cell b' r c 0) rng')
      else box_loop rec r c avail is b rng)"

primrec helper :: "cell list \<Rightarrow> int list \<Rightarrow> grid \<Rightarrow> rng \<Rightarrow> bool \<times> grid \<times> rng" where
  "helper [] avail b rng = (True, b, rng)"
| "helper (p # rest) avail b rng =
     (case shuffle avail rng of
        (avail', rng') \<Rightarrow> box_loop (helper rest) (fst p) (snd p) avail' [0..<length avail'] b rng')"

definition fill_box :: "nat \<Rightarrow> nat \<Rightarrow> grid \<Rightarrow> rng \<Rightarrow> bool \<times> grid \<times> rng" where
  "fill_box start_row start_col b rng =
     helper (concat (map (\<lambda>r. map (\<lambda>c. (start_row + r, start_col + c)) [0..<3]) [0..<2]))
       (map int [1..<7]) b rng"

definition py_index :: "'a list \<Rightarrow> int \<Rightarrow> error + 'a" where
  \<comment> \<open>\<open>xs[i]\<close>: an index below zero counts from the end, one outside the list raises\<close>
  "py_index xs i =
     (if 0 \<le> i \<and> i < int (length xs) then Inr (xs ! nat i)
      else if i < 0 \<and> - int (length xs) \<le> i then Inr (xs ! nat (int (length xs) + i))
      else Inl IndexError)"

definition evaluate :: "int \<Rightarrow> string list \<times> (error + int)" where
  \<comment> \<open>the first component is what the call prints to stderr\<close>
  "evaluate d =
     (let empty_cells = [0, 10, 15, 20, 24, 26, 28] in
      (if d < 1 \<or> d > int (length empty_cells) - 1 then [''invalid difficulty''] else [],
       py_index empty_cells d))"

fun remove_numbers :: "cell list \<Rightarrow> int \<Rightarrow> grid \<Rightarrow> rng \<Rightarrow> (int \<times> grid \<times> rng) option" where
  \<comment> \<open>the loop \<open>while empty_cells > 0 and len(unvisited) > 0\<close>; the list is \<open>unvisited\<close>
     in the order in which \<open>pop()\<close> takes its cells, that is, reversed\<close>
  "remove_numbers [] empty_cells b rng = Some (empty_cells, b, rng)"
| "remove_numbers ((r, c) # rest) empty_cells b rng =
     (if empty_cells > 0 then
        (let copy = b ! r ! c; b1 = set_cell b r c 0 in
         case solve max_depth6 b1 rng of
           None \<Rightarrow> None
         | Some (solutions, b2, rng') \<Rightarrow>
             if length solutions > 1 then remove_numbers rest empty_cells (set_cell b2 r c copy) rng'
             else remove_numbers rest (empty_cells - 1) b2 rng')
      else Some (empty_cells, b, rng))"

fun draw_id :: "nat \<Rightarrow> rng \<Rightarrow> nat list \<times> rng" where
  \<comment> \<open>\<open>random.choices(alphabet, k=8)\<close>, as indices into the 36 characters\<close>
  "draw_id 0 rng = ([], rng)"
| "draw_id (Suc k) rng =
     (case randbelow 36 rng of (x, rng') \<Rightarrow> (case draw_id k rng' of (xs, rng'') \<Rightarrow> (x # xs, rng'')))"

fun fill_boxes :: "cell list \<Rightarrow> grid \<Rightarrow> rng \<Rightarrow> bool \<times> grid \<times> rng" where
  \<comment> \<open>\<open>for start_row, start_col in positions: if not self.fill_box(...): return False\<close>\<close>
  "fill_boxes [] b rng = (True, b, rng)"
| "fill_boxes ((start_row, start_col) # positions) b rng =
     (case fill_box start_row start_col b rng of
        (ok, b', rng') \<Rightarrow> if ok then fill_boxes positions b' rng' else (False, b', rng'))"

definition generate :: "sudoku6x6 \<Rightarrow> int \<Rightarrow> rng \<Rightarrow> ((error + bool) \<times> sudoku6x6 \<times> rng) option" where
  \<comment> \<open>\<open>Inl e\<close>: the call raises \<open>e\<close>; \<open>Inr ok\<close>: it returns \<open>ok\<close>\<close>
  "generate self d rng =
     (case draw_id 8 rng of (pid, rng0) \<Rightarrow>
      let self1 = self\<lparr>difficulty := d, puzzle_id := Some pid\<rparr> in
      case fill_boxes [(0, 0), (2, 3), (4, 0)] (board self1) rng0 of (boxes_ok, b1, rng1) \<Rightarrow>
      if \<not> boxes_ok then Some (Inr False, self1\<lparr>board := b1\<rparr>, rng1)
      else
        (case fill_solution max_depth6 b1 rng1 of
           None \<Rightarrow> None
         | Some (filled, b2, rng2) \<Rightarrow>
             if \<not> filled then Some (Inr False, self1\<lparr>board := b2\<rparr>, rng2)
             else
               (let self2 = self1\<lparr>board := b2, solution := Some b2\<rparr> in
                case snd (evaluate d) of
                  Inl e \<Rightarrow> Some (Inl e, self2, rng2)
                | Inr empty_cells \<Rightarrow>
                    (case shuffle (cells_of 6) rng2 of (unvisited, rng3) \<Rightarrow>
                     case remove_numbers (rev unvisited) empty_cells b2 rng3 of
                       None \<Rightarrow> None
                     | Some (left, b3, rng4) \<Rightarrow>
                         Some (Inr (\<not> left > 0), self2\<lparr>board := b3\<rparr>, rng4)))))"

section \<open>Concrete boards\<close>

text \<open>
  An irregular region map with nine 4-connected regions of nine cells (six of them
  reach into more than one 3x3 box), a solution under it, and that solution with its
  first row erased.
\<close>

definition ex_regions :: grid where
  "ex_regions =
    [[0, 0, 0, 1, 1, 1, 2, 2, 2],
     [0, 0, 0, 1, 1, 1, 2, 2, 5],
     [0, 0, 0, 1, 1, 1, 2, 2, 5],
     [3, 3, 3, 3, 4, 4, 5, 2, 5],
     [3, 6, 3, 4, 4, 4, 5, 2, 5],
     [3, 6, 6, 4, 4, 4, 5, 5, 5],
     [3, 6, 7, 7, 4, 7, 8, 8, 8],
     [3, 6, 6, 7, 7, 7, 8, 8, 8],
     [6, 6, 6, 7, 7, 7, 8, 8, 8]]"

definition ex_solution :: grid where
  "ex_solution =
    [[6, 4, 2, 1, 7, 9, 3, 5, 8],
     [9, 5, 1, 2, 8, 3, 4, 6, 7],
     [8, 3, 7, 6, 5, 4, 2, 9, 1],
     [1, 6, 9, 4, 2, 5, 8, 7, 3],
     [3, 7, 8, 9, 4, 6, 5, 1, 2],
     [2, 1, 5, 8, 3, 7, 9, 4, 6],
     [7, 9, 4, 3, 1, 2, 6, 8, 5],
     [5, 2, 6, 7, 9, 8, 1, 3, 4],
     [4, 8, 3, 5, 6, 1, 7, 2, 9]]"

definition ex_partial :: grid where
  "ex_partial =
    [[0, 0, 0, 0, 0, 0, 0, 0, 0],
     [9, 5, 1, 2, 8, 3, 4, 6, 7],
     [8, 3, 7, 6, 5, 4, 2, 9, 1],
     [1, 6, 9, 4, 2, 5, 8, 7, 3],
     [3, 7, 8, 9, 4, 6, 5, 1, 2],
     [2, 1, 5, 8, 3, 7, 9, 4, 6],
     [7, 9, 4, 3, 1, 2, 6, 8, 5],
     [5, 2, 6, 7, 9, 8, 1, 3, 4],
     [4, 8, 3, 5, 6, 1, 7, 2, 9]]"

text \<open>
  A 9x9 board on which the search fails only after it has filled a cell: the two empty
  cells \<open>(0, 0)\<close> and \<open>(0, 1)\<close> both admit the symbol 6 alone.
\<close>

definition ex_stuck :: grid where
  "ex_stuck =
    [[0, 0, 2, 1, 7, 9, 3, 5, 8],
     [9, 5, 1, 2, 8, 3, 4, 6, 7],
     [8, 3, 7, 6, 5, 4, 2, 9, 1],
     [1, 4, 9, 4, 2, 5, 8, 7, 3],
     [3, 7, 8, 9, 4, 6, 5, 1, 2],
     [2, 1, 5, 8, 3, 7, 9, 4, 6],
     [7, 9, 4, 3, 1, 2, 6, 8, 5],
     [5, 2, 6, 7, 9, 8, 1, 3, 4],
     [4, 8, 3, 5, 6, 1, 7, 2, 9]]"

text \<open>
  A solved 6x6 board, and a 6x6 board on which the search fills \<open>(0, 0)\<close> with 1 and
  then finds no number for \<open>(0, 1)\<close>.
\<close>

definition ex6_solution :: grid where
  "ex6_solution =
    [[1, 2, 3, 4, 5, 6],
     [4, 5, 6, 1, 2, 3],
     [2, 3, 1, 5, 6, 4],
     [5, 6, 4, 2, 3, 1],
     [3, 1, 2, 6, 4, 5],
     [6, 4, 5, 3, 1, 2]]"

definition ex6_stuck :: grid where
  "ex6_stuck =
    [[0, 0, 3, 4, 5, 6],
     [4, 5, 6, 1, 2, 3],
     [2, 2, 1, 5, 6, 4],
     [5, 6, 4, 2, 3, 1],
     [3, 1, 2, 6, 4, 5],
     [6, 4, 5, 3, 1, 2]]"


section \<open>What a solution is\<close>

text \<open>
  The notions the claims speak about, for a board of side \<open>n\<close> and a relation
  \<open>peer p q\<close> that holds when the cells \<open>p\<close> and \<open>q\<close> share a row, a column or a
  region. A cell \<open>fits\<close> when it holds a symbol of \<open>1..n\<close> that none of its other
  peers holds. A board is a solution when it has the right shape and every cell fits.
  A board \<open>h\<close> completes a board \<open>g\<close> when it keeps the filled cells of \<open>g\<close> and
  every cell that is empty in \<open>g\<close> fits in \<open>h\<close>.
\<close>

definition cell_at :: "grid \<Rightarrow> cell \<Rightarrow> int" where
  "cell_at g p = g ! fst p ! snd p"

definition peer9 :: "grid \<Rightarrow> cell \<Rightarrow> cell \<Rightarrow> bool" where
  "peer9 regions p q =
     (fst q = fst p \<or> snd q = snd p \<or> cell_at regions q = cell_at regions p)"

definition peer6 :: "cell \<Rightarrow> cell \<Rightarrow> bool" where
  "peer6 p q =
     (fst q = fst p \<or> snd q = snd p \<or> (fst q div 2 = fst p div 2 \<and> snd q div 3 = snd p div 3))"

definition fits :: "nat \<Rightarrow> (cell \<Rightarrow> cell \<Rightarrow> bool) \<Rightarrow> grid \<Rightarrow> cell \<Rightarrow> bool" where
  "fits n peer h p =
     (1 \<le> cell_at h p \<and> cell_at h p \<le> int n
      \<and> (\<forall>q \<in> set (cells_of n). q \<noteq> p \<and> peer p q \<longrightarrow> cell_at h q \<noteq> cell_at h p))"

definition is_solution :: "nat \<Rightarrow> (cell \<Rightarrow> cell \<Rightarrow> bool) \<Rightarrow> grid \<Rightarrow> bool" where
  "is_solution n peer h = (wf_grid n h \<and> (\<forall>p \<in> set (cells_of n). fits n peer h p))"

definition extends :: "nat \<Rightarrow> grid \<Rightarrow> grid \<Rightarrow> bool" where
  \<comment> \<open>\<open>h\<close> keeps every filled cell of \<open>g\<close>\<close>
  "extends n g h = (\<forall>p \<in> set (cells_of n). cell_at g p \<noteq> 0 \<longrightarrow> cell_at h p = cell_at g p)"

definition completes :: "nat \<Rightarrow> (cell \<Rightarrow> cell \<Rightarrow> bool) \<Rightarrow> grid \<Rightarrow> grid \<Rightarrow> bool" where
  "completes n peer g h =
     (wf_grid n h \<and> extends n g h \<and> (\<forall>p \<in> set (cells_of n). cell_at g p = 0 \<longrightarrow> fits n peer h p))"

definition placed_ok :: "nat \<Rightarrow> (cell \<Rightarrow> cell \<Rightarrow> bool) \<Rightarrow> grid \<Rightarrow> bool" where
  \<comment> \<open>the filled cells of a partial board do not clash with each other\<close>
  "placed_ok n peer g = (\<forall>p \<in> set (cells_of n). cell_at g p \<noteq> 0 \<longrightarrow> fits n peer g p)"

definition keeps :: "cell list \<Rightarrow> grid \<Rightarrow> grid \<Rightarrow> bool" where
  \<comment> \<open>the 6x6 board \<open>b'\<close> differs from \<open>b\<close> at most on the cells \<open>cs\<close>\<close>
  "keeps cs b b' = (\<forall>q \<in> set (cells_of 6). q \<notin> set cs \<longrightarrow> cell_at b' q = cell_at b q)"

definition legal :: "nat \<Rightarrow> (cell \<Rightarrow> cell \<Rightarrow> bool) \<Rightarrow> grid \<Rightarrow> cell \<Rightarrow> int \<Rightarrow> bool" where
  \<comment> \<open>\<open>d\<close> is a symbol that no filled peer of \<open>p\<close> holds\<close>
  "legal n peer g p d =
     (1 \<le> d \<and> d \<le> int n \<and> (\<forall>q \<in> set (cells_of n). q \<noteq> p \<and> peer p q \<longrightarrow> cell_at g q \<noteq> d))"

definition completions9 :: "grid \<Rightarrow> grid \<Rightarrow> grid set" where
  "completions9 regions g = {h. completes GRID_SIZE (peer9 regions) g h}"

definition solutions9 :: "grid \<Rightarrow> grid \<Rightarrow> grid set" where
  \<comment> \<open>the solutions of the puzzle \<open>g\<close> under the region map\<close>
  "solutions9 regions g = {h. is_solution GRID_SIZE (peer9 regions) h \<and> extends GRID_SIZE g h}"

definition completions6 :: "grid \<Rightarrow> grid set" where
  "completions6 b = {h. completes 6 peer6 b h}"

definition solutions6 :: "grid \<Rightarrow> grid set" where
  "solutions6 b = {h. is_solution 6 peer6 h \<and> extends 6 b h}"

definition empties :: "nat \<Rightarrow> grid \<Rightarrow> nat" where
  "empties n g = length (filter (\<lambda>p. cell_at g p = 0) (cells_of n))"

definition givens :: "nat \<Rightarrow> grid \<Rightarrow> nat" where
  "givens n g = length (filter (\<lambda>p. cell_at g p \<noteq> 0) (cells_of n))"

text \<open>
  The property of claim C2 in the words of the specification: along the cells of one
  unit, each symbol of \<open>1..n\<close> is held by exactly one cell.
\<close>

definition each_symbol_once :: "nat \<Rightarrow> grid \<Rightarrow> cell list \<Rightarrow> bool" where
  "each_symbol_once n h unit_cells =
     (\<forall>d \<in> set (map int [1..<n + 1]). length (filter (\<lambda>p. cell_at h p = d) unit_cells) = 1)"

definition row_cells :: "nat \<Rightarrow> nat \<Rightarrow> cell list" where
  "row_cells n r = map (\<lambda>c. (r, c)) [0..<n]"

definition column_cells :: "nat \<Rightarrow> nat \<Rightarrow> cell list" where
  "column_cells n c = map (\<lambda>r. (r, c)) [0..<n]"

definition region_cells :: "grid \<Rightarrow> int \<Rightarrow> cell list" where
  "region_cells regions k = filter (\<lambda>p. cell_at regions p = k) (cells_of GRID_SIZE)"

definition box_cells :: "nat \<Rightarrow> nat \<Rightarrow> cell list" where
  \<comment> \<open>the 2x3 box of the 6x6 board in box row \<open>i\<close> and box column \<open>j\<close>\<close>
  "box_cells i j = filter (\<lambda>p. fst p div 2 = i \<and> snd p div 3 = j) (cells_of 6)"


section \<open>Properties of the shared data model\<close>

lemma set_cells_of: "set (cells_of n) = {(r, c). r < n \<and> c < n}"
  by (auto simp: cells_of_def)

lemma wf_grid_row: "wf_grid n g \<Longrightarrow> r < n \<Longrightarrow> length (g ! r) = n"
  by (simp add: wf_grid_def list_all_length)

section \<open>The constraint checker\<close>

lemma set_used_symbols:
  assumes "wf_grid GRID_SIZE grid" and "r < GRID_SIZE"
  shows "set (used_symbols grid regions r c) =
    {v. v \<noteq> 0 \<and> ((\<exists>j<GRID_SIZE. grid ! r ! j = v) \<or> (\<exists>i<GRID_SIZE. grid ! i ! c = v) \<or>
       (\<exists>i<GRID_SIZE. \<exists>j<GRID_SIZE. regions ! i ! j = regions ! r ! c \<and> grid ! i ! j = v))}"
proof -
  have len: "length (grid ! r) = GRID_SIZE"
    using assms by (rule wf_grid_row)
  have row: "set (filter (\<lambda>n. n \<noteq> 0) (grid ! r)) = {v. v \<noteq> 0 \<and> (\<exists>j<GRID_SIZE. grid ! r ! j = v)}"
    using len by (auto simp: in_set_conv_nth)
  have col: "set (map (\<lambda>i. grid ! i ! c) (filter (\<lambda>i. grid ! i ! c \<noteq> 0) [0..<GRID_SIZE]))
      = {v. v \<noteq> 0 \<and> (\<exists>i<GRID_SIZE. grid ! i ! c = v)}"
    by auto
  have reg: "set (map (\<lambda>(rr, cc). grid ! rr ! cc)
         (filter (\<lambda>(rr, cc). regions ! rr ! cc = region_index regions r c \<and> grid ! rr ! cc \<noteq> 0)
            (cells_of GRID_SIZE)))
      = {v. v \<noteq> 0 \<and> (\<exists>i<GRID_SIZE. \<exists>j<GRID_SIZE. regions ! i ! j = regions ! r ! c \<and> grid ! i ! j = v)}"
    by (auto simp: set_cells_of region_index_def image_iff)
  show ?thesis
    unfolding used_symbols_def set_append row col reg by blast
qed

lemma DIGITS_eq: "DIGITS = [1, 2, 3, 4, 5, 6, 7, 8, 9]"
  by code_simp

lemma set_DIGITS: "set DIGITS = {d. 1 \<le> d \<and> d \<le> 9}"
  unfolding DIGITS_eq by auto

lemma set_compute_candidates:
  assumes "wf_grid GRID_SIZE grid" and "r < GRID_SIZE" and "grid ! r ! c = 0"
  shows "set (compute_candidates grid regions r c) =
     {d. 1 \<le> d \<and> d \<le> 9 \<and> (\<forall>j<GRID_SIZE. grid ! r ! j \<noteq> d) \<and>
            (\<forall>i<GRID_SIZE. grid ! i ! c \<noteq> d) \<and>
            (\<forall>i<GRID_SIZE. \<forall>j<GRID_SIZE. regions ! i ! j = regions ! r ! c \<longrightarrow> grid ! i ! j \<noteq> d)}"
    (is "?L = ?R")
proof (rule set_eqI)
  fix d :: int
  have L: "d \<in> ?L \<longleftrightarrow> d \<in> set DIGITS \<and> d \<notin> set (used_symbols grid regions r c)"
    using assms(3) by (simp add: compute_candidates_def)
  have D: "d \<in> set DIGITS \<longleftrightarrow> 1 \<le> d \<and> d \<le> 9"
    by (simp add: set_DIGITS)
  show "d \<in> ?L \<longleftrightarrow> d \<in> ?R"
  proof (cases "1 \<le> d \<and> d \<le> 9")
    case True
    then have "d \<noteq> 0" by simp
    with True show ?thesis
      unfolding L D set_used_symbols [OF assms(1,2)] by blast
  next
    case False
    then show ?thesis unfolding L D by blast
  qed
qed

lemma randbelow_less: "0 < n \<Longrightarrow> fst (randbelow n rng) < n"
  by (simp add: randbelow_def split: list.splits)

lemma mset_shuffle_from:
  "i < length xs \<Longrightarrow> mset (fst (shuffle_from i xs rng)) = mset xs"
proof (induction i arbitrary: xs rng)
  case 0
  then show ?case by simp
next
  case (Suc i)
  obtain j rng' where r: "randbelow (Suc (Suc i)) rng = (j, rng')"
    by (cases "randbelow (Suc (Suc i)) rng")
  have "fst (randbelow (Suc (Suc i)) rng) < Suc (Suc i)"
    by (rule randbelow_less) simp
  with r Suc.prems have j: "j < length xs" by simp
  let ?ys = "xs[Suc i := xs ! j, j := xs ! Suc i]"
  have "mset ?ys = mset xs"
    using Suc.prems j by (simp add: mset_swap)
  moreover have "mset (fst (shuffle_from i ?ys rng')) = mset ?ys"
    using Suc.prems by (intro Suc.IH) simp
  ultimately show ?case using r by simp
qed

lemma mset_shuffle: "mset (fst (shuffle xs rng)) = mset xs"
proof (cases xs)
  case Nil
  then show ?thesis by (simp add: shuffle_def)
next
  case (Cons x rest)
  then show ?thesis unfolding shuffle_def by (intro mset_shuffle_from) simp
qed

lemma shuffle_perm:
  assumes "shuffle xs rng = (ys, rng')"
  shows "mset ys = mset xs"
  using mset_shuffle [of xs rng] assms by simp

lemma shuffle_set: "shuffle xs rng = (ys, rng') \<Longrightarrow> set ys = set xs"
  by (metis shuffle_perm mset_eq_setD)

lemma shuffle_distinct: "shuffle xs rng = (ys, rng') \<Longrightarrow> distinct ys = distinct xs"
  by (metis shuffle_perm mset_eq_imp_distinct_iff)

lemma shuffle_length: "shuffle xs rng = (ys, rng') \<Longrightarrow> length ys = length xs"
  by (metis shuffle_perm mset_eq_length)

lemma set_cell_twice: "set_cell (set_cell g r c d) r c v = set_cell g r c v"
proof (cases "r < length g")
  case True
  then show ?thesis by (simp add: set_cell_def)
next
  case False
  have "g[r := x] = g" for x using False by (intro list_update_beyond) simp
  then show ?thesis by (simp add: set_cell_def)
qed

lemma set_cell_same: "set_cell g r c (g ! r ! c) = g"
  by (simp add: set_cell_def)

lemma set_cell_undo: "g ! r ! c = 0 \<Longrightarrow> set_cell (set_cell g r c d) r c 0 = g"
  using set_cell_same [of g r c] by (simp add: set_cell_twice)

lemma wf_grid_set_cell: "wf_grid n g \<Longrightarrow> wf_grid n (set_cell g r c v)"
proof -
  assume a: "wf_grid n g"
  have "length (set_cell g r c v ! i) = n" if "i < n" for i
    using a that by (cases "i = r") (simp_all add: wf_grid_def set_cell_def list_all_length)
  then show ?thesis using a by (simp add: wf_grid_def list_all_length set_cell_def)
qed

lemma nth_set_cell:
  "wf_grid n g \<Longrightarrow> r < n \<Longrightarrow> c < n \<Longrightarrow> i < n \<Longrightarrow> j < n \<Longrightarrow>
   set_cell g r c v ! i ! j = (if i = r \<and> j = c then v else g ! i ! j)"
  by (auto simp: wf_grid_def set_cell_def list_all_length nth_list_update)

section \<open>Cell selection by minimum remaining values\<close>

lemma mrv_scan_Inl:
  "mrv_scan g regs ps best = Inl (r, c) \<Longrightarrow>
   (r, c) \<in> set ps \<and> g ! r ! c = 0 \<and> compute_candidates g regs r c = []"
  by (induction g regs ps best rule: mrv_scan.induct) (auto split: if_splits simp: Let_def)

lemma mrv_scan_dead_end:
  "(r, c) \<in> set ps \<Longrightarrow> g ! r ! c = 0 \<Longrightarrow> compute_candidates g regs r c = [] \<Longrightarrow>
   \<exists>p. mrv_scan g regs ps best = Inl p"
  by (induction g regs ps best rule: mrv_scan.induct) (auto split: if_splits simp: Let_def)

lemma mrv_scan_Inr_None:
  "mrv_scan g regs ps best = Inr None \<Longrightarrow> best = None \<and> (\<forall>(r, c) \<in> set ps. g ! r ! c \<noteq> 0)"
  by (induction g regs ps best rule: mrv_scan.induct) (auto split: if_splits simp: Let_def)

lemma mrv_scan_full:
  "\<forall>(r, c) \<in> set ps. g ! r ! c \<noteq> 0 \<Longrightarrow> mrv_scan g regs ps best = Inr best"
  by (induction g regs ps best rule: mrv_scan.induct) (auto split: if_splits simp: Let_def)

lemma mrv_scan_Inr_Some:
  "mrv_scan g regs ps best = Inr (Some ((r, c), cs)) \<Longrightarrow>
   (best = Some ((r, c), cs) \<or> ((r, c) \<in> set ps \<and> g ! r ! c = 0 \<and> cs = compute_candidates g regs r c))
   \<and> (\<forall>(r', c') \<in> set ps. g ! r' ! c' = 0 \<longrightarrow>
          length cs \<le> length (compute_candidates g regs r' c') \<and> compute_candidates g regs r' c' \<noteq> [])
   \<and> (\<forall>p bc. best = Some (p, bc) \<longrightarrow> length cs \<le> length bc)"
proof (induction g regs ps best rule: mrv_scan.induct)
  case (1 g regions best)
  then show ?case by simp
next
  case (2 g regions r0 c0 rest best)
  show ?case
  proof (cases "g ! r0 ! c0 = 0")
    case False
    with "2.prems" have run: "mrv_scan g regions rest best = Inr (Some ((r, c), cs))"
      by simp
    from "2.IH"(3) [OF False run] False show ?thesis by auto
  next
    case True
    let ?cands = "compute_candidates g regions r0 c0"
    from "2.prems" True have ne: "?cands \<noteq> []"
      by (auto simp: Let_def split: if_splits)
    show ?thesis
    proof (cases "case best of None \<Rightarrow> True | Some (_, best_cands) \<Rightarrow> length ?cands < length best_cands")
      case better: True
      with "2.prems" True ne have run: "mrv_scan g regions rest (Some ((r0, c0), ?cands)) = Inr (Some ((r, c), cs))"
        by (simp add: Let_def)
      have ih: "(Some ((r0, c0), ?cands) = Some ((r, c), cs) \<or> ((r, c) \<in> set rest \<and> g ! r ! c = 0 \<and> cs = compute_candidates g regions r c))
        \<and> (\<forall>(r', c') \<in> set rest. g ! r' ! c' = 0 \<longrightarrow>
          length cs \<le> length (compute_candidates g regions r' c') \<and> compute_candidates g regions r' c' \<noteq> [])
        \<and> (\<forall>p bc. Some ((r0, c0), ?cands) = Some (p, bc) \<longrightarrow> length cs \<le> length bc)"
        using "2.IH"(1) [OF True refl ne better run] .
      then have le: "length cs \<le> length ?cands" by simp
      from ih True ne le better show ?thesis
        by (auto split: option.splits)
    next
      case worse: False
      with "2.prems" True ne have run: "mrv_scan g regions rest best = Inr (Some ((r, c), cs))"
        by (simp add: Let_def)
      have ih: "(best = Some ((r, c), cs) \<or> ((r, c) \<in> set rest \<and> g ! r ! c = 0 \<and> cs = compute_candidates g regions r c))
        \<and> (\<forall>(r', c') \<in> set rest. g ! r' ! c' = 0 \<longrightarrow>
          length cs \<le> length (compute_candidates g regions r' c') \<and> compute_candidates g regions r' c' \<noteq> [])
        \<and> (\<forall>p bc. best = Some (p, bc) \<longrightarrow> length cs \<le> length bc)"
        using "2.IH"(2) [OF True refl ne worse run] .
      from worse obtain p bc where b: "best = Some (p, bc)" and "length bc \<le> length ?cands"
        by (auto split: option.splits)
      with ih have "length cs \<le> length ?cands" by auto
      with ih True ne show ?thesis by auto
    qed
  qed
qed

lemma cells_of_product: "cells_of n = List.product [0..<n] [0..<n]"
  by (simp add: cells_of_def product_concat_map)

lemma distinct_cells_of: "distinct (cells_of n)"
  by (simp add: cells_of_product distinct_product)

lemma find_unassigned_None:
  assumes "find_unassigned_with_mrv g regs rng = (None, rng')"
  shows "rng' = rng \<and> (\<forall>r<GRID_SIZE. \<forall>c<GRID_SIZE. g ! r ! c \<noteq> 0)"
proof -
  from assms have "mrv_scan g regs (cells_of GRID_SIZE) None = Inr None \<and> rng' = rng"
    by (auto simp: find_unassigned_with_mrv_def split: sum.splits option.splits prod.splits)
  then show ?thesis
    using mrv_scan_Inr_None [of g regs "cells_of GRID_SIZE" None]
    by (auto simp: set_cells_of)
qed

lemma find_unassigned_full:
  assumes "\<forall>r<GRID_SIZE. \<forall>c<GRID_SIZE. g ! r ! c \<noteq> 0"
  shows "find_unassigned_with_mrv g regs rng = (None, rng)"
proof -
  have "mrv_scan g regs (cells_of GRID_SIZE) None = Inr None"
    using assms by (intro mrv_scan_full) (auto simp: set_cells_of)
  then show ?thesis by (simp add: find_unassigned_with_mrv_def)
qed

lemma find_unassigned_Some:
  assumes "find_unassigned_with_mrv g regs rng = (Some (r, c, cands), rng')"
  shows "r < GRID_SIZE \<and> c < GRID_SIZE \<and> g ! r ! c = 0
    \<and> mset cands = mset (compute_candidates g regs r c)
    \<and> (cands \<noteq> [] \<longrightarrow> (\<forall>r'<GRID_SIZE. \<forall>c'<GRID_SIZE. g ! r' ! c' = 0 \<longrightarrow>
          length cands \<le> length (compute_candidates g regs r' c')
          \<and> compute_candidates g regs r' c' \<noteq> []))"
proof (cases "mrv_scan g regs (cells_of GRID_SIZE) None")
  case (Inl p)
  obtain r0 c0 where p: "p = (r0, c0)" by (cases p)
  from assms Inl p have eq: "r = r0" "c = c0" "cands = []"
    by (auto simp: find_unassigned_with_mrv_def)
  from mrv_scan_Inl [OF Inl [unfolded p]] eq show ?thesis
    by (auto simp: set_cells_of)
next
  case (Inr best)
  with assms obtain r0 c0 bc where best: "best = Some ((r0, c0), bc)"
    by (cases best) (auto simp: find_unassigned_with_mrv_def)
  from assms Inr best have sh: "shuffle bc rng = (cands, rng')" and eq: "r = r0" "c = c0"
    by (auto simp: find_unassigned_with_mrv_def split: prod.splits)
  note scan = mrv_scan_Inr_Some [OF Inr [unfolded best]]
  from scan have bc: "bc = compute_candidates g regs r0 c0" and in_range: "(r0, c0) \<in> set (cells_of GRID_SIZE)"
    and z: "g ! r0 ! c0 = 0" by auto
  from scan have least: "\<forall>(r', c') \<in> set (cells_of GRID_SIZE). g ! r' ! c' = 0 \<longrightarrow>
          length bc \<le> length (compute_candidates g regs r' c') \<and> compute_candidates g regs r' c' \<noteq> []"
    by blast
  have len: "length cands = length bc" using sh by (rule shuffle_length)
  have ms: "mset cands = mset bc" using sh by (rule shuffle_perm)
  from least len have "\<forall>r'<GRID_SIZE. \<forall>c'<GRID_SIZE. g ! r' ! c' = 0 \<longrightarrow>
          length cands \<le> length (compute_candidates g regs r' c')
          \<and> compute_candidates g regs r' c' \<noteq> []"
    by (auto simp: set_cells_of)
  with in_range z ms bc eq show ?thesis by (simp add: set_cells_of)
qed

lemma find_unassigned_dead_end:
  assumes "r < GRID_SIZE" "c < GRID_SIZE" "g ! r ! c = 0" "compute_candidates g regs r c = []"
  shows "\<exists>r' c'. find_unassigned_with_mrv g regs rng = (Some (r', c', []), rng)"
proof -
  have "(r, c) \<in> set (cells_of GRID_SIZE)" using assms by (simp add: set_cells_of)
  from mrv_scan_dead_end [OF this assms(3,4)] obtain p
    where "mrv_scan g regs (cells_of GRID_SIZE) None = Inl p" by blast
  then show ?thesis by (cases p) (simp add: find_unassigned_with_mrv_def)
qed

lemma try_candidates_undo:
  assumes rec: "\<And>g rng g' rng'. rec g rng = Some (False, g', rng') \<Longrightarrow> g' = g"
    and z: "g ! r ! c = 0"
  shows "try_candidates rec r c ds g rng = Some (False, g', rng') \<Longrightarrow> g' = g"
proof (induction ds arbitrary: rng)
  case Nil
  then show ?case by simp
next
  case (Cons d ds)
  from Cons.prems obtain found g1 rng1 where r1: "rec (set_cell g r c d) rng = Some (found, g1, rng1)"
    by (auto split: option.splits)
  with Cons.prems have nf: "\<not> found" by (auto split: if_splits)
  have "g1 = set_cell g r c d"
    using rec [of "set_cell g r c d" rng g1 rng1] r1 nf by simp
  then have restored: "set_cell g1 r c 0 = g" using z by (simp add: set_cell_undo)
  from Cons.prems r1 nf restored have "try_candidates rec r c ds g rng1 = Some (False, g', rng')"
    by simp
  then show ?case by (rule Cons.IH)
qed

lemma dfs_solve_undo:
  "dfs_solve depth regs g rng = Some (False, g', rng') \<Longrightarrow> g' = g"
proof (induction depth arbitrary: g rng g' rng')
  case 0
  then show ?case by simp
next
  case (Suc depth)
  obtain pos rng1 where f: "find_unassigned_with_mrv g regs rng = (pos, rng1)"
    by (cases "find_unassigned_with_mrv g regs rng")
  show ?case
  proof (cases pos)
    case None
    with Suc.prems f show ?thesis by simp
  next
    case (Some t)
    obtain r c cands where t: "t = (r, c, cands)" by (cases t)
    from find_unassigned_Some [OF f [unfolded Some t]] have z: "g ! r ! c = 0" by simp
    show ?thesis
    proof (cases "cands = []")
      case True
      with Suc.prems f Some t show ?thesis by simp
    next
      case False
      with Suc.prems f Some t
      have "try_candidates (dfs_solve depth regs) r c cands g rng1 = Some (False, g', rng')"
        by simp
      then show ?thesis
        using Suc.IH z by (rule try_candidates_undo [rotated 2])
    qed
  qed
qed

section \<open>Completions of a partial board\<close>

lemma cell_at_set_cell:
  assumes "wf_grid n g" and "(r, c) \<in> set (cells_of n)" and "q \<in> set (cells_of n)"
  shows "cell_at (set_cell g r c v) q = (if q = (r, c) then v else cell_at g q)"
proof -
  obtain i j where q: "q = (i, j)" by (cases q)
  with assms have "r < n" "c < n" "i < n" "j < n" by (simp_all add: set_cells_of)
  from nth_set_cell [OF assms(1) this] q show ?thesis
    by (simp add: cell_at_def)
qed

lemma completes_at_filled:
  assumes "completes n peer g h" and "p \<in> set (cells_of n)" and "cell_at g p \<noteq> 0"
  shows "cell_at h p = cell_at g p"
  using assms by (simp add: completes_def extends_def)

lemma completes_split:
  assumes wf: "wf_grid n g" and p: "(r, c) \<in> set (cells_of n)" and z: "cell_at g (r, c) = 0"
    and sym: "\<And>p q. peer p q \<Longrightarrow> peer q p"
  shows "completes n peer g h \<longleftrightarrow>
    legal n peer g (r, c) (cell_at h (r, c)) \<and> completes n peer (set_cell g r c (cell_at h (r, c))) h"
    (is "?L \<longleftrightarrow> ?A \<and> ?B")
proof -
  let ?p = "(r, c)"
  let ?d = "cell_at h ?p"
  let ?g' = "set_cell g r c ?d"
  have upd: "cell_at ?g' q = (if q = ?p then ?d else cell_at g q)" if "q \<in> set (cells_of n)" for q
    using wf p that by (rule cell_at_set_cell)
  show ?thesis
  proof
    assume L: ?L
    then have wfh: "wf_grid n h" and ext: "extends n g h"
      and fit: "\<And>q. q \<in> set (cells_of n) \<Longrightarrow> cell_at g q = 0 \<Longrightarrow> fits n peer h q"
      by (simp_all add: completes_def)
    from fit [OF p z] have fp: "fits n peer h ?p" .
    then have d1: "1 \<le> ?d" and dn: "?d \<le> int n" by (simp_all add: fits_def)
    have A: ?A
      unfolding legal_def
    proof (intro conjI ballI impI)
      fix q assume q: "q \<in> set (cells_of n)" and qp: "q \<noteq> ?p \<and> peer ?p q"
      show "cell_at g q \<noteq> ?d"
      proof (cases "cell_at g q = 0")
        case True
        with d1 show ?thesis by simp
      next
        case False
        with ext q have "cell_at h q = cell_at g q" by (simp add: extends_def)
        moreover from fp q qp have "cell_at h q \<noteq> ?d" by (simp add: fits_def)
        ultimately show ?thesis by simp
      qed
    qed (rule d1, rule dn)
    have ext': "extends n ?g' h"
      unfolding extends_def
    proof (intro ballI impI)
      fix q assume q: "q \<in> set (cells_of n)" and nz: "cell_at ?g' q \<noteq> 0"
      show "cell_at h q = cell_at ?g' q"
      proof (cases "q = ?p")
        case True
        then show ?thesis using upd [OF q] by simp
      next
        case False
        with upd [OF q] nz ext q show ?thesis by (simp add: extends_def)
      qed
    qed
    have fit': "fits n peer h q" if q: "q \<in> set (cells_of n)" and e: "cell_at ?g' q = 0" for q
    proof -
      from e upd [OF q] d1 have "q \<noteq> ?p" by auto
      with e upd [OF q] have "cell_at g q = 0" by simp
      with q show ?thesis by (rule fit)
    qed
    from wfh ext' fit' have ?B by (simp add: completes_def)
    with A show "?A \<and> ?B" ..
  next
    assume AB: "?A \<and> ?B"
    then have A: ?A and B: ?B by simp_all
    from B have wfh: "wf_grid n h" and ext': "extends n ?g' h"
      and fit': "\<And>q. q \<in> set (cells_of n) \<Longrightarrow> cell_at ?g' q = 0 \<Longrightarrow> fits n peer h q"
      by (simp_all add: completes_def)
    from A have d1: "1 \<le> ?d" and dn: "?d \<le> int n"
      and free: "\<And>q. q \<in> set (cells_of n) \<Longrightarrow> q \<noteq> ?p \<Longrightarrow> peer ?p q \<Longrightarrow> cell_at g q \<noteq> ?d"
      by (simp_all add: legal_def)
    have ext: "extends n g h"
      unfolding extends_def
    proof (intro ballI impI)
      fix q assume q: "q \<in> set (cells_of n)" and nz: "cell_at g q \<noteq> 0"
      with z have "q \<noteq> ?p" by auto
      with upd [OF q] nz ext' q show "cell_at h q = cell_at g q" by (simp add: extends_def)
    qed
    have fit: "fits n peer h q" if q: "q \<in> set (cells_of n)" and e: "cell_at g q = 0" for q
    proof (cases "q = ?p")
      case False
      with upd [OF q] e have "cell_at ?g' q = 0" by simp
      with q show ?thesis by (rule fit')
    next
      case True
      have "cell_at h q' \<noteq> ?d" if q': "q' \<in> set (cells_of n)" and ne: "q' \<noteq> ?p" and pr: "peer ?p q'" for q'
      proof (cases "cell_at g q' = 0")
        case False
        with ext q' have "cell_at h q' = cell_at g q'" by (simp add: extends_def)
        with free [OF q' ne pr] show ?thesis by simp
      next
        case True
        with upd [OF q'] ne have "cell_at ?g' q' = 0" by simp
        with q' have "fits n peer h q'" by (rule fit')
        moreover from pr have "peer q' ?p" by (rule sym)
        ultimately have "cell_at h ?p \<noteq> cell_at h q'"
          using p ne by (auto simp: fits_def)
        then show ?thesis by simp
      qed
      with d1 dn True show ?thesis by (simp add: fits_def)
    qed
    from wfh ext fit show ?L by (simp add: completes_def)
  qed
qed

lemma completes_set_cell_value:
  assumes wf: "wf_grid n g" and p: "(r, c) \<in> set (cells_of n)" and d: "d \<noteq> 0"
    and cm: "completes n peer (set_cell g r c d) h"
  shows "cell_at h (r, c) = d"
proof -
  have "cell_at (set_cell g r c d) (r, c) = d"
    using cell_at_set_cell [OF wf p p] by simp
  with completes_at_filled [OF cm p] d show ?thesis by simp
qed

lemma completes_iff_legal:
  assumes wf: "wf_grid n g" and p: "(r, c) \<in> set (cells_of n)" and z: "cell_at g (r, c) = 0"
    and sym: "\<And>p q. peer p q \<Longrightarrow> peer q p"
  shows "{h. completes n peer g h} =
    (\<Union>d \<in> {d. legal n peer g (r, c) d}. {h. completes n peer (set_cell g r c d) h})"
proof (intro set_eqI iffI)
  fix h assume "h \<in> {h. completes n peer g h}"
  then have "legal n peer g (r, c) (cell_at h (r, c)) \<and> completes n peer (set_cell g r c (cell_at h (r, c))) h"
    using completes_split [OF wf p z sym, where h = h] by simp
  then show "h \<in> (\<Union>d \<in> {d. legal n peer g (r, c) d}. {h. completes n peer (set_cell g r c d) h})"
    by blast
next
  fix h assume "h \<in> (\<Union>d \<in> {d. legal n peer g (r, c) d}. {h. completes n peer (set_cell g r c d) h})"
  then obtain d where d: "legal n peer g (r, c) d" and cm: "completes n peer (set_cell g r c d) h"
    by blast
  from d have "d \<noteq> 0" by (simp add: legal_def)
  from completes_set_cell_value [OF wf p this cm] d cm
  show "h \<in> {h. completes n peer g h}"
    using completes_split [OF wf p z sym, where h = h] by simp
qed

lemma finite_completes: "finite {h. completes n peer g h}"
proof -
  define V where "V = {1..int n} \<union> cell_at g ` set (cells_of n)"
  have fV: "finite V" by (simp add: V_def)
  have "{h. completes n peer g h} \<subseteq> {h. set h \<subseteq> {row. set row \<subseteq> V \<and> length row = n} \<and> length h = n}"
  proof
    fix h assume "h \<in> {h. completes n peer g h}"
    then have cm: "completes n peer g h" by simp
    then have wfh: "wf_grid n h" by (simp add: completes_def)
    have val: "cell_at h p \<in> V" if p: "p \<in> set (cells_of n)" for p
    proof (cases "cell_at g p = 0")
      case True
      with cm p have "fits n peer h p" by (simp add: completes_def)
      then show ?thesis by (simp add: fits_def V_def)
    next
      case False
      from completes_at_filled [OF cm p False] p show ?thesis by (simp add: V_def)
    qed
    have "set row \<subseteq> V \<and> length row = n" if row: "row \<in> set h" for row
    proof -
      from row obtain r where r: "r < length h" "row = h ! r" by (auto simp: in_set_conv_nth)
      with wfh have rn: "r < n" and len: "length row = n"
        by (simp_all add: wf_grid_def list_all_length)
      have "row ! c \<in> V" if "c < n" for c
        using val [of "(r, c)"] rn that r by (simp add: set_cells_of cell_at_def)
      with len show ?thesis by (auto simp: in_set_conv_nth)
    qed
    with wfh show "h \<in> {h. set h \<subseteq> {row. set row \<subseteq> V \<and> length row = n} \<and> length h = n}"
      by (auto simp: wf_grid_def)
  qed
  moreover have "finite {h. set h \<subseteq> {row. set row \<subseteq> V \<and> length row = n} \<and> length h = n}"
    by (rule finite_lists_length_eq [OF finite_lists_length_eq [OF fV]])
  ultimately show ?thesis by (rule finite_subset)
qed

lemma finite_legal: "finite {d. legal n peer g p d}"
proof -
  have "{d. legal n peer g p d} \<subseteq> {1..int n}" by (auto simp: legal_def)
  then show ?thesis by (rule finite_subset) simp
qed

lemma card_completes:
  assumes wf: "wf_grid n g" and p: "(r, c) \<in> set (cells_of n)" and z: "cell_at g (r, c) = 0"
    and sym: "\<And>p q. peer p q \<Longrightarrow> peer q p"
  shows "card {h. completes n peer g h} =
    (\<Sum>d \<in> {d. legal n peer g (r, c) d}. card {h. completes n peer (set_cell g r c d) h})"
proof -
  have disj: "{h. completes n peer (set_cell g r c d) h} \<inter> {h. completes n peer (set_cell g r c e) h} = {}"
    if "legal n peer g (r, c) d" "legal n peer g (r, c) e" "d \<noteq> e" for d e
  proof -
    from that have "d \<noteq> 0" "e \<noteq> 0" by (simp_all add: legal_def)
    with completes_set_cell_value [OF wf p] that(3) show ?thesis by blast
  qed
  let ?D = "{d. legal n peer g (r, c) d}"
  let ?A = "\<lambda>d. {h. completes n peer (set_cell g r c d) h}"
  have "card (\<Union>d \<in> ?D. ?A d) = (\<Sum>d \<in> ?D. card (?A d))"
  proof (rule card_UN_disjoint)
    show "finite ?D" by (rule finite_legal)
    show "\<forall>d \<in> ?D. finite (?A d)" by (simp add: finite_completes)
    show "\<forall>d \<in> ?D. \<forall>e \<in> ?D. d \<noteq> e \<longrightarrow> ?A d \<inter> ?A e = {}"
      using disj by simp
  qed
  then show ?thesis
    by (simp only: completes_iff_legal [OF wf p z sym])
qed

lemma completes_full:
  assumes wf: "wf_grid n g" and full: "\<forall>p \<in> set (cells_of n). cell_at g p \<noteq> 0"
  shows "completes n peer g h \<longleftrightarrow> h = g"
proof
  assume "h = g"
  with wf full show "completes n peer g h" by (simp add: completes_def extends_def)
next
  assume cm: "completes n peer g h"
  then have wfh: "wf_grid n h" by (simp add: completes_def)
  have eq: "h ! r ! c = g ! r ! c" if "r < n" "c < n" for r c
    using completes_at_filled [OF cm, of "(r, c)"] full that by (simp add: set_cells_of cell_at_def)
  show "h = g"
  proof (rule nth_equalityI)
    show "length h = length g" using wf wfh by (simp add: wf_grid_def)
  next
    fix r assume "r < length h"
    with wfh have rn: "r < n" by (simp add: wf_grid_def)
    show "h ! r = g ! r"
    proof (rule nth_equalityI)
      show "length (h ! r) = length (g ! r)"
        using wf wfh rn by (simp add: wf_grid_row)
    next
      fix c assume "c < length (h ! r)"
      with wfh rn have "c < n" by (simp add: wf_grid_row)
      with rn show "h ! r ! c = g ! r ! c" by (rule eq)
    qed
  qed
qed

lemma completes_dead_end:
  assumes wf: "wf_grid n g" and p: "(r, c) \<in> set (cells_of n)" and z: "cell_at g (r, c) = 0"
    and sym: "\<And>p q. peer p q \<Longrightarrow> peer q p" and dead: "\<And>d. \<not> legal n peer g (r, c) d"
  shows "\<not> completes n peer g h"
  using completes_split [OF wf p z sym, where h = h] dead by simp

section \<open>The 9x9 search and the completions of a board\<close>

lemma peer9_sym: "peer9 regs p q \<Longrightarrow> peer9 regs q p"
  by (auto simp: peer9_def)

lemma peer6_sym: "peer6 p q \<Longrightarrow> peer6 q p"
  by (auto simp: peer6_def)

lemma legal9_candidates:
  assumes wf: "wf_grid GRID_SIZE g" and r: "r < GRID_SIZE" and c: "c < GRID_SIZE" and z: "g ! r ! c = 0"
  shows "set (compute_candidates g regs r c) = {d. legal GRID_SIZE (peer9 regs) g (r, c) d}"
proof (rule set_eqI)
  fix d :: int
  have cand: "d \<in> set (compute_candidates g regs r c) \<longleftrightarrow>
      1 \<le> d \<and> d \<le> 9 \<and> (\<forall>j<GRID_SIZE. g ! r ! j \<noteq> d) \<and> (\<forall>i<GRID_SIZE. g ! i ! c \<noteq> d) \<and>
      (\<forall>i<GRID_SIZE. \<forall>j<GRID_SIZE. regs ! i ! j = regs ! r ! c \<longrightarrow> g ! i ! j \<noteq> d)"
    unfolding set_compute_candidates [OF wf r z] by simp
  have leg: "legal GRID_SIZE (peer9 regs) g (r, c) d \<longleftrightarrow>
      1 \<le> d \<and> d \<le> 9 \<and> (\<forall>i<GRID_SIZE. \<forall>j<GRID_SIZE. (i, j) \<noteq> (r, c) \<and>
         (i = r \<or> j = c \<or> regs ! i ! j = regs ! r ! c) \<longrightarrow> g ! i ! j \<noteq> d)"
    by (auto simp: legal_def peer9_def cell_at_def set_cells_of GRID_SIZE_def)
  show "d \<in> set (compute_candidates g regs r c) \<longleftrightarrow> d \<in> {d. legal GRID_SIZE (peer9 regs) g (r, c) d}"
  proof (cases "1 \<le> d")
    case False
    then show ?thesis unfolding cand leg mem_Collect_eq by simp
  next
    case True
    with z have self: "g ! r ! c \<noteq> d" by simp
    show ?thesis unfolding cand leg mem_Collect_eq
      using self r c by (intro iffI conjI allI impI; (elim conjE)?) (auto; metis)+
  qed
qed


lemma empties_card: "empties n g = card {p \<in> set (cells_of n). cell_at g p = 0}"
proof -
  have "{p \<in> set (cells_of n). cell_at g p = 0} = {p. cell_at g p = 0} \<inter> set (cells_of n)"
    by auto
  then show ?thesis
    by (simp add: empties_def distinct_length_filter [OF distinct_cells_of])
qed

lemma empties_set_cell:
  assumes wf: "wf_grid n g" and p: "(r, c) \<in> set (cells_of n)" and z: "cell_at g (r, c) = 0"
    and d: "d \<noteq> 0"
  shows "empties n (set_cell g r c d) < empties n g"
proof -
  let ?E = "{p \<in> set (cells_of n). cell_at g p = 0}"
  let ?E' = "{p \<in> set (cells_of n). cell_at (set_cell g r c d) p = 0}"
  have "?E' \<subseteq> ?E"
    using cell_at_set_cell [OF wf p] d by (auto split: if_splits)
  moreover have "(r, c) \<in> ?E" using p z by simp
  moreover have "(r, c) \<notin> ?E'" using cell_at_set_cell [OF wf p p] d by simp
  ultimately have "?E' \<subset> ?E" by blast
  then have "card ?E' < card ?E" by (intro psubset_card_mono) simp_all
  then show ?thesis by (simp add: empties_card)
qed

lemma empties_zero:
  "empties n g = 0 \<longleftrightarrow> (\<forall>p \<in> set (cells_of n). cell_at g p \<noteq> 0)"
  by (auto simp: empties_def filter_empty_conv)

lemma count_candidates_spec:
  fixes N :: "int \<Rightarrow> nat"
  assumes rec: "\<And>d cnt rng. d \<in> set ds \<Longrightarrow> cnt < limit \<Longrightarrow>
      \<exists>g' rng'. rec cnt (set_cell g r c d) rng
          = Some (limit \<le> cnt + int (N d), min limit (cnt + int (N d)), g', rng')
        \<and> (cnt + int (N d) < limit \<longrightarrow> g' = set_cell g r c d)"
    and z: "g ! r ! c = 0" and lt: "cnt < limit"
  shows "\<exists>g' rng'. count_candidates rec limit r c ds cnt g rng
          = Some (limit \<le> cnt + (\<Sum>d\<leftarrow>ds. int (N d)), min limit (cnt + (\<Sum>d\<leftarrow>ds. int (N d))), g', rng')
        \<and> (cnt + (\<Sum>d\<leftarrow>ds. int (N d)) < limit \<longrightarrow> g' = g)"
  using rec lt
proof (induction ds arbitrary: cnt rng)
  case Nil
  then show ?case by simp
next
  case (Cons d ds)
  from Cons.prems(1) [of d cnt rng] Cons.prems(2)
  obtain g1 rng1 where r1: "rec cnt (set_cell g r c d) rng
          = Some (limit \<le> cnt + int (N d), min limit (cnt + int (N d)), g1, rng1)"
    and g1: "cnt + int (N d) < limit \<longrightarrow> g1 = set_cell g r c d"
    by auto
  let ?rest = "\<Sum>d\<leftarrow>ds. int (N d)"
  have nonneg: "0 \<le> ?rest" by (induction ds) simp_all
  show ?case
  proof (cases "limit \<le> cnt + int (N d)")
    case True
    with r1 nonneg show ?thesis by simp
  next
    case False
    then have lt': "cnt + int (N d) < limit" by simp
    with g1 have "set_cell g1 r c 0 = g" using z by (simp add: set_cell_undo)
    with r1 False have step: "count_candidates rec limit r c (d # ds) cnt g rng
        = count_candidates rec limit r c ds (cnt + int (N d)) g rng1"
      by simp
    have "\<exists>g' rng'. count_candidates rec limit r c ds (cnt + int (N d)) g rng1
          = Some (limit \<le> cnt + int (N d) + ?rest, min limit (cnt + int (N d) + ?rest), g', rng')
        \<and> (cnt + int (N d) + ?rest < limit \<longrightarrow> g' = g)"
      using Cons.prems(1) lt' by (intro Cons.IH) auto
    then show ?thesis unfolding step by (simp add: add.assoc)
  qed
qed

lemma dfs_count_spec:
  assumes "wf_grid GRID_SIZE g" and "empties GRID_SIZE g < depth" and "cnt < limit"
  shows "\<exists>g' rng'. dfs_count depth regs limit cnt g rng
          = Some (limit \<le> cnt + int (card (completions9 regs g)),
                  min limit (cnt + int (card (completions9 regs g))), g', rng')
        \<and> (cnt + int (card (completions9 regs g)) < limit \<longrightarrow> g' = g)"
  using assms
proof (induction depth arbitrary: g cnt rng)
  case 0
  then show ?case by simp
next
  case (Suc depth)
  note wf = Suc.prems(1) and lt = Suc.prems(3)
  obtain pos rng1 where f: "find_unassigned_with_mrv g regs rng = (pos, rng1)"
    by (cases "find_unassigned_with_mrv g regs rng")
  show ?case
  proof (cases pos)
    case None
    from find_unassigned_None [OF f [unfolded None]]
    have "\<forall>p \<in> set (cells_of GRID_SIZE). cell_at g p \<noteq> 0"
      by (auto simp: set_cells_of cell_at_def)
    from completes_full [OF wf this] have "completions9 regs g = {g}"
      by (auto simp: completions9_def)
    with f None lt show ?thesis by simp
  next
    case (Some t)
    obtain r c cands where t: "t = (r, c, cands)" by (cases t)
    note fu = find_unassigned_Some [OF f [unfolded Some t]]
    from fu have r: "r < GRID_SIZE" and c: "c < GRID_SIZE" and z: "g ! r ! c = 0"
      and ms: "mset cands = mset (compute_candidates g regs r c)" by simp_all
    from r c have p: "(r, c) \<in> set (cells_of GRID_SIZE)" by (simp add: set_cells_of)
    from z have z': "cell_at g (r, c) = 0" by (simp add: cell_at_def)
    have cs: "set cands = {d. legal GRID_SIZE (peer9 regs) g (r, c) d}"
      using ms legal9_candidates [OF wf r c z] by (metis mset_eq_setD)
    have dist: "distinct cands"
      using ms by (metis mset_eq_imp_distinct_iff compute_candidates_def distinct.simps(1)
          distinct_filter distinct_map DIGITS_eq distinct_upt DIGITS_def inj_on_def of_nat_eq_iff)
    let ?N = "\<lambda>d. card (completions9 regs (set_cell g r c d))"
    have total: "(\<Sum>d\<leftarrow>cands. int (?N d)) = int (card (completions9 regs g))"
    proof -
      have "(\<Sum>d\<leftarrow>cands. int (?N d)) = (\<Sum>d \<in> set cands. int (?N d))"
        using dist by (rule sum_list_distinct_conv_sum_set)
      also have "\<dots> = int (\<Sum>d \<in> {d. legal GRID_SIZE (peer9 regs) g (r, c) d}. ?N d)"
        by (simp add: cs)
      also have "\<dots> = int (card (completions9 regs g))"
        unfolding completions9_def
        using card_completes [where peer = "peer9 regs", OF wf p z' peer9_sym] by simp
      finally show ?thesis .
    qed
    show ?thesis
    proof (cases "cands = []")
      case True
      with total have "card (completions9 regs g) = 0" by simp
      with f Some t True lt show ?thesis by simp
    next
      case False
      have rec: "\<exists>g' rng'. dfs_count depth regs limit k (set_cell g r c d) rg
            = Some (limit \<le> k + int (?N d), min limit (k + int (?N d)), g', rng')
          \<and> (k + int (?N d) < limit \<longrightarrow> g' = set_cell g r c d)"
        if d: "d \<in> set cands" and k: "k < limit" for d k rg
      proof (rule Suc.IH)
        show "wf_grid GRID_SIZE (set_cell g r c d)" using wf by (rule wf_grid_set_cell)
        from d cs have "d \<noteq> 0" by (auto simp: legal_def)
        from empties_set_cell [OF wf p z' this] Suc.prems(2)
        show "empties GRID_SIZE (set_cell g r c d) < depth" by simp
        show "k < limit" by (rule k)
      qed
      from f Some t False lt have run: "dfs_count (Suc depth) regs limit cnt g rng
          = count_candidates (dfs_count depth regs limit) limit r c cands cnt g rng1"
        by simp
      from count_candidates_spec [of cands limit "dfs_count depth regs limit" g r c ?N cnt rng1, OF rec z lt]
      show ?thesis unfolding run total by simp
    qed
  qed
qed

lemma try_candidates_spec:
  assumes rec: "\<And>d rng. d \<in> set ds \<Longrightarrow>
      \<exists>g' rng'. rec (set_cell g r c d) rng = Some (completions9 regs (set_cell g r c d) \<noteq> {}, g', rng')
        \<and> (completions9 regs (set_cell g r c d) \<noteq> {} \<longrightarrow> g' \<in> completions9 regs (set_cell g r c d))
        \<and> (completions9 regs (set_cell g r c d) = {} \<longrightarrow> g' = set_cell g r c d)"
    and z: "g ! r ! c = 0"
  shows "\<exists>g' rng'. try_candidates rec r c ds g rng
          = Some ((\<Union>d \<in> set ds. completions9 regs (set_cell g r c d)) \<noteq> {}, g', rng')
        \<and> ((\<Union>d \<in> set ds. completions9 regs (set_cell g r c d)) \<noteq> {}
              \<longrightarrow> g' \<in> (\<Union>d \<in> set ds. completions9 regs (set_cell g r c d)))
        \<and> ((\<Union>d \<in> set ds. completions9 regs (set_cell g r c d)) = {} \<longrightarrow> g' = g)"
  using rec
proof (induction ds arbitrary: rng)
  case Nil
  show ?case by simp
next
  case (Cons d ds)
  let ?C = "\<lambda>d. completions9 regs (set_cell g r c d)"
  from Cons.prems [of d rng]
  obtain g1 rng1 where r1: "rec (set_cell g r c d) rng = Some (?C d \<noteq> {}, g1, rng1)"
    and p1: "?C d \<noteq> {} \<longrightarrow> g1 \<in> ?C d" and p2: "?C d = {} \<longrightarrow> g1 = set_cell g r c d"
    by auto
  show ?case
  proof (cases "?C d = {}")
    case False
    with r1 p1 show ?thesis by auto
  next
    case True
    with p2 have "set_cell g1 r c 0 = g" using z by (simp add: set_cell_undo)
    with r1 True have step: "try_candidates rec r c (d # ds) g rng = try_candidates rec r c ds g rng1"
      by simp
    have "\<exists>g' rng'. try_candidates rec r c ds g rng1
          = Some ((\<Union>d \<in> set ds. ?C d) \<noteq> {}, g', rng')
        \<and> ((\<Union>d \<in> set ds. ?C d) \<noteq> {} \<longrightarrow> g' \<in> (\<Union>d \<in> set ds. ?C d))
        \<and> ((\<Union>d \<in> set ds. ?C d) = {} \<longrightarrow> g' = g)"
      using Cons.prems by (intro Cons.IH) auto
    moreover have "(\<Union>d \<in> set (d # ds). ?C d) = (\<Union>d \<in> set ds. ?C d)"
      using True by simp
    ultimately show ?thesis unfolding step by simp
  qed
qed

lemma completions9_split:
  assumes wf: "wf_grid GRID_SIZE g" and r: "r < GRID_SIZE" and c: "c < GRID_SIZE" and z: "g ! r ! c = 0"
  shows "completions9 regs g = (\<Union>d \<in> set (compute_candidates g regs r c). completions9 regs (set_cell g r c d))"
proof -
  from r c have p: "(r, c) \<in> set (cells_of GRID_SIZE)" by (simp add: set_cells_of)
  from z have z': "cell_at g (r, c) = 0" by (simp add: cell_at_def)
  show ?thesis
    unfolding completions9_def legal9_candidates [OF wf r c z]
    by (rule completes_iff_legal [OF wf p z' peer9_sym])
qed

lemma dfs_solve_spec:
  assumes "wf_grid GRID_SIZE g" and "empties GRID_SIZE g < depth"
  shows "\<exists>g' rng'. dfs_solve depth regs g rng = Some (completions9 regs g \<noteq> {}, g', rng')
        \<and> (completions9 regs g \<noteq> {} \<longrightarrow> g' \<in> completions9 regs g)
        \<and> (completions9 regs g = {} \<longrightarrow> g' = g)"
  using assms
proof (induction depth arbitrary: g rng)
  case 0
  then show ?case by simp
next
  case (Suc depth)
  note wf = Suc.prems(1)
  obtain pos rng1 where f: "find_unassigned_with_mrv g regs rng = (pos, rng1)"
    by (cases "find_unassigned_with_mrv g regs rng")
  show ?case
  proof (cases pos)
    case None
    from find_unassigned_None [OF f [unfolded None]]
    have "\<forall>p \<in> set (cells_of GRID_SIZE). cell_at g p \<noteq> 0"
      by (auto simp: set_cells_of cell_at_def)
    from completes_full [OF wf this] have "completions9 regs g = {g}"
      by (auto simp: completions9_def)
    with f None show ?thesis by simp
  next
    case (Some t)
    obtain r c cands where t: "t = (r, c, cands)" by (cases t)
    note fu = find_unassigned_Some [OF f [unfolded Some t]]
    from fu have r: "r < GRID_SIZE" and c: "c < GRID_SIZE" and z: "g ! r ! c = 0"
      and ms: "mset cands = mset (compute_candidates g regs r c)" by simp_all
    from r c have p: "(r, c) \<in> set (cells_of GRID_SIZE)" by (simp add: set_cells_of)
    from z have z': "cell_at g (r, c) = 0" by (simp add: cell_at_def)
    from ms have cs: "set cands = set (compute_candidates g regs r c)" by (rule mset_eq_setD)
    have split: "completions9 regs g = (\<Union>d \<in> set cands. completions9 regs (set_cell g r c d))"
      unfolding cs by (rule completions9_split [OF wf r c z])
    show ?thesis
    proof (cases "cands = []")
      case True
      with split have "completions9 regs g = {}" by simp
      with f Some t True show ?thesis by simp
    next
      case False
      have rec: "\<exists>g' rng'. dfs_solve depth regs (set_cell g r c d) rg
            = Some (completions9 regs (set_cell g r c d) \<noteq> {}, g', rng')
          \<and> (completions9 regs (set_cell g r c d) \<noteq> {} \<longrightarrow> g' \<in> completions9 regs (set_cell g r c d))
          \<and> (completions9 regs (set_cell g r c d) = {} \<longrightarrow> g' = set_cell g r c d)"
        if d: "d \<in> set cands" for d rg
      proof (rule Suc.IH)
        show "wf_grid GRID_SIZE (set_cell g r c d)" using wf by (rule wf_grid_set_cell)
        from d cs legal9_candidates [OF wf r c z, of regs] have "d \<noteq> 0" by (auto simp: legal_def)
        from empties_set_cell [OF wf p z' this] Suc.prems(2)
        show "empties GRID_SIZE (set_cell g r c d) < depth" by simp
      qed
      from f Some t False have run: "dfs_solve (Suc depth) regs g rng
          = try_candidates (dfs_solve depth regs) r c cands g rng1"
        by simp
      from try_candidates_spec [of cands "dfs_solve depth regs" g r c regs rng1, OF rec z]
      show ?thesis unfolding run split .
    qed
  qed
qed

lemma empties_le: "empties n g \<le> n * n"
proof -
  have "empties n g \<le> length (cells_of n)" by (simp add: empties_def)
  also have "\<dots> = n * n" by (simp add: cells_of_product)
  finally show ?thesis .
qed

lemma empties_lt_max_depth: "empties GRID_SIZE g < max_depth"
  using empties_le [of GRID_SIZE g] by (simp add: max_depth_def)

lemma count_solutions_spec:
  assumes wf: "wf_grid GRID_SIZE g"
  shows "\<exists>rng'. count_solutions g regs limit rng
      = Some (if limit \<le> 0 then 0 else min limit (int (card (completions9 regs g))), rng')"
proof (cases "limit \<le> 0")
  case True
  have md: "max_depth = Suc (GRID_SIZE * GRID_SIZE)" by (simp add: max_depth_def)
  have "dfs_count max_depth regs limit 0 g rng = Some (True, 0, g, rng)"
    unfolding md using True by simp
  with True show ?thesis by (simp add: count_solutions_def)
next
  case False
  then have "0 < limit" by simp
  from dfs_count_spec [OF wf empties_lt_max_depth this, of regs rng] False
  show ?thesis by (auto simp: count_solutions_def)
qed

lemma solve_backtracking_spec:
  assumes wf: "wf_grid GRID_SIZE g"
  shows "\<exists>res rng'. solve_backtracking g regs rng = Some (res, rng')
      \<and> (case res of Some h \<Rightarrow> h \<in> completions9 regs g | None \<Rightarrow> completions9 regs g = {})"
proof -
  from dfs_solve_spec [OF wf empties_lt_max_depth, of regs rng]
  obtain g' rng' where "dfs_solve max_depth regs g rng = Some (completions9 regs g \<noteq> {}, g', rng')"
    and "completions9 regs g \<noteq> {} \<longrightarrow> g' \<in> completions9 regs g"
    by blast
  then show ?thesis by (cases "completions9 regs g = {}") (simp_all add: solve_backtracking_def)
qed

section \<open>The 6x6 search\<close>

lemma first_empty_Some:
  "first_empty b ps = Some (r, c) \<Longrightarrow> (r, c) \<in> set ps \<and> b ! r ! c = 0"
  by (induction b ps rule: first_empty.induct) (auto split: if_splits)

lemma first_empty_None:
  "first_empty b ps = None \<longleftrightarrow> (\<forall>(r, c) \<in> set ps. b ! r ! c \<noteq> 0)"
  by (induction b ps rule: first_empty.induct) auto

lemma first_empty_first:
  "first_empty b ps = Some p \<Longrightarrow>
   \<exists>before after. ps = before @ p # after \<and> (\<forall>(r, c) \<in> set before. b ! r ! c \<noteq> 0)"
proof (induction b ps rule: first_empty.induct)
  case (1 b)
  then show ?case by simp
next
  case (2 b r c rest)
  show ?case
  proof (cases "b ! r ! c = 0")
    case True
    with 2 have "p = (r, c)" by simp
    then have "(r, c) # rest = [] @ p # rest \<and> (\<forall>(r, c) \<in> set []. b ! r ! c \<noteq> 0)" by simp
    then show ?thesis by blast
  next
    case False
    with 2 obtain before after where "rest = before @ p # after"
      and "\<forall>(r, c) \<in> set before. b ! r ! c \<noteq> 0" by auto
    with False have "(r, c) # rest = ((r, c) # before) @ p # after
      \<and> (\<forall>(r, c) \<in> set ((r, c) # before). b ! r ! c \<noteq> 0)" by simp
    then show ?thesis by blast
  qed
qed

lemma box_cells_iff:
  fixes r c :: nat
  shows "(\<forall>i<2. \<forall>j<3. P (i + r div 2 * 2) (j + c div 3 * 3))
    \<longleftrightarrow> (\<forall>i j :: nat. i div 2 = r div 2 \<and> j div 3 = c div 3 \<longrightarrow> P i j)"
proof
  assume a: "\<forall>i<2. \<forall>j<3. P (i + r div 2 * 2) (j + c div 3 * 3)"
  show "\<forall>i j. i div 2 = r div 2 \<and> j div 3 = c div 3 \<longrightarrow> P i j"
  proof (intro allI impI)
    fix i j :: nat assume d: "i div 2 = r div 2 \<and> j div 3 = c div 3"
    have "i = i mod 2 + i div 2 * 2" by simp
    with d have i: "i = i mod 2 + r div 2 * 2" by simp
    have "j = j mod 3 + j div 3 * 3" by simp
    with d have j: "j = j mod 3 + c div 3 * 3" by simp
    have "i mod 2 < 2" "j mod 3 < 3" by simp_all
    with a have "P (i mod 2 + r div 2 * 2) (j mod 3 + c div 3 * 3)" by blast
    with i j show "P i j" by simp
  qed
next
  assume a: "\<forall>i j. i div 2 = r div 2 \<and> j div 3 = c div 3 \<longrightarrow> P i j"
  show "\<forall>i<2. \<forall>j<3. P (i + r div 2 * 2) (j + c div 3 * 3)"
  proof (intro allI impI)
    fix i j :: nat assume "i < 2" "j < 3"
    then have "(i + r div 2 * 2) div 2 = r div 2" "(j + c div 3 * 3) div 3 = c div 3" by simp_all
    with a show "P (i + r div 2 * 2) (j + c div 3 * 3)" by blast
  qed
qed

lemma number_is_valid_iff:
  "number_is_valid b r c n \<longleftrightarrow>
     (\<forall>i<6. b ! r ! i \<noteq> n) \<and> (\<forall>i<6. b ! i ! c \<noteq> n)
     \<and> (\<forall>i j. i div 2 = r div 2 \<and> j div 3 = c div 3 \<longrightarrow> b ! i ! j \<noteq> n)"
proof -
  have "number_is_valid b r c n \<longleftrightarrow>
     (\<forall>i<6. b ! r ! i \<noteq> n \<and> b ! i ! c \<noteq> n)
     \<and> (\<forall>i<2. \<forall>j<3. b ! (i + r div 2 * 2) ! (j + c div 3 * 3) \<noteq> n)"
    by (simp add: number_is_valid_def Let_def list_all_iff Ball_def)
  also have "\<dots> \<longleftrightarrow> (\<forall>i<6. b ! r ! i \<noteq> n \<and> b ! i ! c \<noteq> n)
     \<and> (\<forall>i j. i div 2 = r div 2 \<and> j div 3 = c div 3 \<longrightarrow> b ! i ! j \<noteq> n)"
    by (simp only: box_cells_iff [where P = "\<lambda>i j. b ! i ! j \<noteq> n"])
  finally show ?thesis by blast
qed

lemma legal6_unfold:
  assumes n: "1 \<le> n" "n \<le> 6"
  shows "legal 6 peer6 b (r, c) n \<longleftrightarrow>
      (\<forall>i<6. \<forall>j<6. (i, j) \<noteq> (r, c) \<and> (i = r \<or> j = c \<or> (i div 2 = r div 2 \<and> j div 3 = c div 3))
          \<longrightarrow> b ! i ! j \<noteq> n)"
proof -
  have "legal 6 peer6 b (r, c) n \<longleftrightarrow>
     (\<forall>q. q \<in> {(i, j). i < 6 \<and> j < 6} \<longrightarrow> q \<noteq> (r, c) \<and> peer6 (r, c) q \<longrightarrow> cell_at b q \<noteq> n)"
    using n by (simp add: legal_def set_cells_of Ball_def)
  also have "\<dots> \<longleftrightarrow> (\<forall>i j. i < 6 \<and> j < 6 \<longrightarrow> (i, j) \<noteq> (r, c) \<and> peer6 (r, c) (i, j) \<longrightarrow> cell_at b (i, j) \<noteq> n)"
    by (simp only: split_paired_All mem_Collect_eq case_prod_conv)
  also have "\<dots> \<longleftrightarrow> (\<forall>i<6. \<forall>j<6. (i, j) \<noteq> (r, c) \<and> (i = r \<or> j = c \<or> (i div 2 = r div 2 \<and> j div 3 = c div 3))
          \<longrightarrow> b ! i ! j \<noteq> n)"
    unfolding peer6_def cell_at_def fst_conv snd_conv by blast
  finally show ?thesis .
qed

lemma box_in_range:
  fixes i j r c :: nat
  assumes "r < 6" "c < 6" "i div 2 = r div 2" "j div 3 = c div 3"
  shows "i < 6 \<and> j < 6"
proof -
  have "i div 2 < 3" using assms by simp
  then have "i < 6" by simp
  moreover have "j div 3 < 2" using assms by simp
  then have "j < 6" by simp
  ultimately show ?thesis ..
qed

lemma legal6_valid:
  assumes r: "r < 6" and c: "c < 6" and z: "b ! r ! c = 0" and n: "1 \<le> n" "n \<le> 6"
  shows "number_is_valid b r c n \<longleftrightarrow> legal 6 peer6 b (r, c) n"
proof -
  from z n have self: "b ! r ! c \<noteq> n" by simp
  show ?thesis
    unfolding number_is_valid_iff legal6_unfold [OF n]
  proof
    assume v: "(\<forall>i<6. b ! r ! i \<noteq> n) \<and> (\<forall>i<6. b ! i ! c \<noteq> n) \<and>
      (\<forall>i j. i div 2 = r div 2 \<and> j div 3 = c div 3 \<longrightarrow> b ! i ! j \<noteq> n)"
    show "\<forall>i<6. \<forall>j<6. (i, j) \<noteq> (r, c) \<and> (i = r \<or> j = c \<or> i div 2 = r div 2 \<and> j div 3 = c div 3)
          \<longrightarrow> b ! i ! j \<noteq> n"
    proof (intro allI impI)
      fix i j :: nat
      assume "i < 6" "j < 6"
        and "(i, j) \<noteq> (r, c) \<and> (i = r \<or> j = c \<or> i div 2 = r div 2 \<and> j div 3 = c div 3)"
      then consider "i = r" | "j = c" | "i div 2 = r div 2 \<and> j div 3 = c div 3" by blast
      then show "b ! i ! j \<noteq> n"
      proof cases
        case 1
        with v \<open>j < 6\<close> show ?thesis by simp
      next
        case 2
        with v \<open>i < 6\<close> show ?thesis by simp
      next
        case 3
        with v show ?thesis by blast
      qed
    qed
  next
    assume l: "\<forall>i<6. \<forall>j<6. (i, j) \<noteq> (r, c) \<and> (i = r \<or> j = c \<or> i div 2 = r div 2 \<and> j div 3 = c div 3)
          \<longrightarrow> b ! i ! j \<noteq> n"
    have cellwise: "b ! i ! j \<noteq> n"
      if "i < 6" "j < 6" "i = r \<or> j = c \<or> i div 2 = r div 2 \<and> j div 3 = c div 3" for i j
    proof (cases "(i, j) = (r, c)")
      case True
      with self show ?thesis by simp
    next
      case False
      from l that(1,2) have "(i, j) \<noteq> (r, c) \<and> (i = r \<or> j = c \<or> i div 2 = r div 2 \<and> j div 3 = c div 3)
          \<longrightarrow> b ! i ! j \<noteq> n" by simp
      with False that(3) show ?thesis by simp
    qed
    have "b ! r ! i \<noteq> n" if "i < 6" for i using cellwise [of r i] r that by simp
    moreover have "b ! i ! c \<noteq> n" if "i < 6" for i using cellwise [of i c] c that by simp
    moreover have "b ! i ! j \<noteq> n" if "i div 2 = r div 2 \<and> j div 3 = c div 3" for i j
      using cellwise [of i j] box_in_range [OF r c, of i j] that by simp
    ultimately show "(\<forall>i<6. b ! r ! i \<noteq> n) \<and> (\<forall>i<6. b ! i ! c \<noteq> n) \<and>
      (\<forall>i j. i div 2 = r div 2 \<and> j div 3 = c div 3 \<longrightarrow> b ! i ! j \<noteq> n)"
      by simp
  qed
qed

lemma digits6: "map int [1..<7] = [1, 2, 3, 4, 5, 6]"
  by code_simp

lemma shuffled_digits6:
  assumes "shuffle (map int [1..<7]) rng = (digits, rng')"
  shows "set digits = {d. 1 \<le> d \<and> d \<le> 6} \<and> distinct digits"
proof -
  have "set digits = set (map int [1..<7])" using assms by (rule shuffle_set)
  moreover have "distinct digits = distinct (map int [1..<7])" using assms by (rule shuffle_distinct)
  moreover have "set [1, 2, 3, 4, 5, 6 :: int] = {d. 1 \<le> d \<and> d \<le> 6}" by auto
  ultimately show ?thesis unfolding digits6 by simp
qed

lemma valid_digits6:
  assumes sh: "shuffle (map int [1..<7]) rng = (digits, rng')"
    and r: "r < 6" and c: "c < 6" and z: "b ! r ! c = 0"
  shows "set (filter (number_is_valid b r c) digits) = {d. legal 6 peer6 b (r, c) d}"
    and "distinct (filter (number_is_valid b r c) digits)"
proof -
  note d = shuffled_digits6 [OF sh]
  show "set (filter (number_is_valid b r c) digits) = {d. legal 6 peer6 b (r, c) d}"
  proof (rule set_eqI)
    fix n :: int
    show "n \<in> set (filter (number_is_valid b r c) digits) \<longleftrightarrow> n \<in> {d. legal 6 peer6 b (r, c) d}"
    proof (cases "1 \<le> n \<and> n \<le> 6")
      case True
      with d legal6_valid [OF r c z, of n] show ?thesis by simp
    next
      case False
      with d show ?thesis by (auto simp: legal_def)
    qed
  qed
  show "distinct (filter (number_is_valid b r c) digits)" using d by simp
qed

lemma solve_digits_spec:
  fixes N :: "int \<Rightarrow> nat"
  assumes rec: "\<And>n rng. n \<in> set ns \<Longrightarrow> number_is_valid b r c n \<Longrightarrow>
      \<exists>rng'. rec (set_cell b r c n) rng = Some (replicate (N n) True, set_cell b r c n, rng')"
    and z: "b ! r ! c = 0"
  shows "\<exists>rng'. solve_digits rec r c ns b rng
      = Some (replicate (\<Sum>n\<leftarrow>filter (number_is_valid b r c) ns. N n) True, b, rng')"
  using rec
proof (induction ns arbitrary: rng)
  case Nil
  show ?case by simp
next
  case (Cons n ns)
  have ih: "\<exists>rng'. solve_digits rec r c ns b rg
      = Some (replicate (\<Sum>n\<leftarrow>filter (number_is_valid b r c) ns. N n) True, b, rng')" for rg
    using Cons.prems by (intro Cons.IH) auto
  show ?case
  proof (cases "number_is_valid b r c n")
    case False
    with ih [of rng] show ?thesis by simp
  next
    case True
    from Cons.prems [of n rng] True
    obtain rng1 where r1: "rec (set_cell b r c n) rng = Some (replicate (N n) True, set_cell b r c n, rng1)"
      by auto
    have restored: "set_cell (set_cell b r c n) r c 0 = b" using z by (rule set_cell_undo)
    from ih [of rng1] obtain rng2 where r2: "solve_digits rec r c ns b rng1
      = Some (replicate (\<Sum>n\<leftarrow>filter (number_is_valid b r c) ns. N n) True, b, rng2)"
      by blast
    from True r1 restored r2 show ?thesis by (simp add: replicate_add)
  qed
qed

lemma solve_spec:
  assumes "wf_grid 6 b" and "empties 6 b < depth"
  shows "\<exists>rng'. solve depth b rng = Some (replicate (card (completions6 b)) True, b, rng')"
  using assms
proof (induction depth arbitrary: b rng)
  case 0
  then show ?case by simp
next
  case (Suc depth)
  note wf = Suc.prems(1)
  show ?case
  proof (cases "first_empty b (cells_of 6)")
    case None
    then have "\<forall>p \<in> set (cells_of 6). cell_at b p \<noteq> 0"
      by (auto simp: first_empty_None cell_at_def)
    from completes_full [OF wf this] have "completions6 b = {b}"
      by (auto simp: completions6_def)
    with None show ?thesis by simp
  next
    case (Some p)
    obtain r c where p: "p = (r, c)" by (cases p)
    from first_empty_Some [OF Some [unfolded p]]
    have cell: "(r, c) \<in> set (cells_of 6)" and z: "b ! r ! c = 0" by simp_all
    from cell have r: "r < 6" and c: "c < 6" by (simp_all add: set_cells_of)
    from z have z': "cell_at b (r, c) = 0" by (simp add: cell_at_def)
    obtain digits rng1 where sh: "shuffle (map int [1..<7]) rng = (digits, rng1)"
      by (cases "shuffle (map int [1..<7]) rng")
    note vd = valid_digits6 [OF sh r c z]
    let ?N = "\<lambda>n. card (completions6 (set_cell b r c n))"
    have rec: "\<exists>rng'. solve depth (set_cell b r c n) rg
        = Some (replicate (?N n) True, set_cell b r c n, rng')"
      if "n \<in> set digits" and v: "number_is_valid b r c n" for n rg
    proof (rule Suc.IH)
      show "wf_grid 6 (set_cell b r c n)" using wf by (rule wf_grid_set_cell)
      from that have "n \<in> set (filter (number_is_valid b r c) digits)" by simp
      then have "legal 6 peer6 b (r, c) n" unfolding vd(1) by simp
      then have "n \<noteq> 0" by (simp add: legal_def)
      from empties_set_cell [OF wf cell z' this] Suc.prems(2)
      show "empties 6 (set_cell b r c n) < depth" by simp
    qed
    have total: "(\<Sum>n\<leftarrow>filter (number_is_valid b r c) digits. ?N n) = card (completions6 b)"
    proof -
      have "(\<Sum>n\<leftarrow>filter (number_is_valid b r c) digits. ?N n)
          = (\<Sum>n \<in> set (filter (number_is_valid b r c) digits). ?N n)"
        using vd(2) by (rule sum_list_distinct_conv_sum_set)
      also have "\<dots> = (\<Sum>n \<in> {d. legal 6 peer6 b (r, c) d}. ?N n)"
        by (simp only: vd(1))
      also have "\<dots> = card (completions6 b)"
        unfolding completions6_def
        using card_completes [where peer = peer6, OF wf cell z' peer6_sym] by simp
      finally show ?thesis .
    qed
    from Some p sh have run: "solve (Suc depth) b rng = solve_digits (solve depth) r c digits b rng1"
      by simp
    from solve_digits_spec [of digits b r c "solve depth" ?N rng1, OF rec z]
    show ?thesis unfolding run total .
  qed
qed

lemma fill_digits_spec:
  assumes rec: "\<And>n rng. n \<in> set ns \<Longrightarrow> number_is_valid b r c n \<Longrightarrow>
      \<exists>b' rng'. rec (set_cell b r c n) rng = Some (completions6 (set_cell b r c n) \<noteq> {}, b', rng')
        \<and> (completions6 (set_cell b r c n) \<noteq> {} \<longrightarrow> b' \<in> completions6 (set_cell b r c n))
        \<and> (completions6 (set_cell b r c n) = {} \<longrightarrow> b' = set_cell b r c n)"
    and z: "b ! r ! c = 0"
  shows "\<exists>b' rng'. fill_digits rec r c ns b rng
          = Some ((\<Union>n \<in> set (filter (number_is_valid b r c) ns). completions6 (set_cell b r c n)) \<noteq> {}, b', rng')
        \<and> ((\<Union>n \<in> set (filter (number_is_valid b r c) ns). completions6 (set_cell b r c n)) \<noteq> {}
              \<longrightarrow> b' \<in> (\<Union>n \<in> set (filter (number_is_valid b r c) ns). completions6 (set_cell b r c n)))
        \<and> ((\<Union>n \<in> set (filter (number_is_valid b r c) ns). completions6 (set_cell b r c n)) = {} \<longrightarrow> b' = b)"
  using rec
proof (induction ns arbitrary: rng)
  case Nil
  show ?case by simp
next
  case (Cons n ns)
  let ?C = "\<lambda>n. completions6 (set_cell b r c n)"
  let ?U = "\<lambda>ns. \<Union>n \<in> set (filter (number_is_valid b r c) ns). ?C n"
  have ih: "\<exists>b' rng'. fill_digits rec r c ns b rg = Some (?U ns \<noteq> {}, b', rng')
        \<and> (?U ns \<noteq> {} \<longrightarrow> b' \<in> ?U ns) \<and> (?U ns = {} \<longrightarrow> b' = b)" for rg
    using Cons.prems by (intro Cons.IH) auto
  show ?case
  proof (cases "number_is_valid b r c n")
    case False
    with ih [of rng] show ?thesis by simp
  next
    case True
    from Cons.prems [of n rng] True
    obtain b1 rng1 where r1: "rec (set_cell b r c n) rng = Some (?C n \<noteq> {}, b1, rng1)"
      and p1: "?C n \<noteq> {} \<longrightarrow> b1 \<in> ?C n" and p2: "?C n = {} \<longrightarrow> b1 = set_cell b r c n"
      by auto
    show ?thesis
    proof (cases "?C n = {}")
      case False
      with True r1 p1 show ?thesis by auto
    next
      case empty: True
      with p2 have "set_cell b1 r c 0 = b" using z by (simp add: set_cell_undo)
      with r1 empty True have step: "fill_digits rec r c (n # ns) b rng = fill_digits rec r c ns b rng1"
        by simp
      have "?U (n # ns) = ?U ns" using empty True by simp
      with ih [of rng1] show ?thesis unfolding step by simp
    qed
  qed
qed

lemma fill_solution_spec:
  assumes "wf_grid 6 b" and "empties 6 b < depth"
  shows "\<exists>b' rng'. fill_solution depth b rng = Some (completions6 b \<noteq> {}, b', rng')
        \<and> (completions6 b \<noteq> {} \<longrightarrow> b' \<in> completions6 b)
        \<and> (completions6 b = {} \<longrightarrow> b' = b)"
  using assms
proof (induction depth arbitrary: b rng)
  case 0
  then show ?case by simp
next
  case (Suc depth)
  note wf = Suc.prems(1)
  show ?case
  proof (cases "first_empty b (cells_of 6)")
    case None
    then have "\<forall>p \<in> set (cells_of 6). cell_at b p \<noteq> 0"
      by (auto simp: first_empty_None cell_at_def)
    from completes_full [OF wf this] have "completions6 b = {b}"
      by (auto simp: completions6_def)
    with None show ?thesis by simp
  next
    case (Some p)
    obtain r c where p: "p = (r, c)" by (cases p)
    from first_empty_Some [OF Some [unfolded p]]
    have cell: "(r, c) \<in> set (cells_of 6)" and z: "b ! r ! c = 0" by simp_all
    from cell have r: "r < 6" and c: "c < 6" by (simp_all add: set_cells_of)
    from z have z': "cell_at b (r, c) = 0" by (simp add: cell_at_def)
    obtain digits rng1 where sh: "shuffle (map int [1..<7]) rng = (digits, rng1)"
      by (cases "shuffle (map int [1..<7]) rng")
    note vd = valid_digits6 [OF sh r c z]
    have split: "completions6 b
        = (\<Union>n \<in> set (filter (number_is_valid b r c) digits). completions6 (set_cell b r c n))"
      unfolding completions6_def vd(1)
      by (rule completes_iff_legal [OF wf cell z' peer6_sym])
    have rec: "\<exists>b' rng'. fill_solution depth (set_cell b r c n) rg
          = Some (completions6 (set_cell b r c n) \<noteq> {}, b', rng')
        \<and> (completions6 (set_cell b r c n) \<noteq> {} \<longrightarrow> b' \<in> completions6 (set_cell b r c n))
        \<and> (completions6 (set_cell b r c n) = {} \<longrightarrow> b' = set_cell b r c n)"
      if "n \<in> set digits" and v: "number_is_valid b r c n" for n rg
    proof (rule Suc.IH)
      show "wf_grid 6 (set_cell b r c n)" using wf by (rule wf_grid_set_cell)
      from that have "n \<in> set (filter (number_is_valid b r c) digits)" by simp
      then have "legal 6 peer6 b (r, c) n" unfolding vd(1) by simp
      then have "n \<noteq> 0" by (simp add: legal_def)
      from empties_set_cell [OF wf cell z' this] Suc.prems(2)
      show "empties 6 (set_cell b r c n) < depth" by simp
    qed
    from Some p sh have run: "fill_solution (Suc depth) b rng
        = fill_digits (fill_solution depth) r c digits b rng1"
      by simp
    from fill_digits_spec [of digits b r c "fill_solution depth" rng1, OF rec z]
    show ?thesis unfolding run split .
  qed
qed

lemma empties_lt_max_depth6: "empties 6 b < max_depth6"
  using empties_le [of 6 b] by (simp add: max_depth6_def)

section \<open>Undo on backtrack\<close>

lemma count_candidates_undo:
  assumes rec: "\<And>cnt g rng stop cnt' g' rng'. rec cnt g rng = Some (stop, cnt', g', rng') \<Longrightarrow>
      (stop \<longrightarrow> limit \<le> cnt') \<and> (\<not> stop \<longrightarrow> g' = g)"
    and z: "g ! r ! c = 0"
  shows "count_candidates rec limit r c ds cnt g rng = Some (stop, cnt', g', rng') \<Longrightarrow>
      (stop \<longrightarrow> limit \<le> cnt') \<and> (\<not> stop \<longrightarrow> g' = g)"
proof (induction ds arbitrary: cnt rng)
  case Nil
  then show ?case by simp
next
  case (Cons d ds)
  from Cons.prems obtain s1 c1 g1 rng1 where r1: "rec cnt (set_cell g r c d) rng = Some (s1, c1, g1, rng1)"
    by (auto split: option.splits)
  note p1 = rec [OF r1]
  show ?case
  proof (cases "s1 \<and> limit \<le> c1")
    case True
    with Cons.prems r1 show ?thesis by auto
  next
    case False
    with p1 have "\<not> s1" by blast
    with p1 have "g1 = set_cell g r c d" by blast
    then have restored: "set_cell g1 r c 0 = g" using z by (simp add: set_cell_undo)
    from Cons.prems r1 False restored
    have "count_candidates rec limit r c ds c1 g rng1 = Some (stop, cnt', g', rng')"
      by auto
    then show ?thesis by (rule Cons.IH)
  qed
qed

lemma dfs_count_undo:
  "dfs_count depth regs limit cnt g rng = Some (stop, cnt', g', rng') \<Longrightarrow>
     (stop \<longrightarrow> limit \<le> cnt') \<and> (\<not> stop \<longrightarrow> g' = g)"
proof (induction depth arbitrary: cnt g rng stop cnt' g' rng')
  case 0
  then show ?case by simp
next
  case (Suc depth)
  show ?case
  proof (cases "limit \<le> cnt")
    case True
    with Suc.prems show ?thesis by auto
  next
    case False
    obtain pos rng1 where f: "find_unassigned_with_mrv g regs rng = (pos, rng1)"
      by (cases "find_unassigned_with_mrv g regs rng")
    show ?thesis
    proof (cases pos)
      case None
      with Suc.prems f False show ?thesis by auto
    next
      case (Some t)
      obtain r c cands where t: "t = (r, c, cands)" by (cases t)
      from find_unassigned_Some [OF f [unfolded Some t]] have z: "g ! r ! c = 0" by simp
      show ?thesis
      proof (cases "cands = []")
        case True
        with Suc.prems f Some t False show ?thesis by auto
      next
        case ne: False
        with Suc.prems f Some t False
        have "count_candidates (dfs_count depth regs limit) limit r c cands cnt g rng1
            = Some (stop, cnt', g', rng')"
          by simp
        then show ?thesis
          using Suc.IH z by (rule count_candidates_undo [rotated 2])
      qed
    qed
  qed
qed

lemma fill_digits_undo:
  assumes rec: "\<And>b rng b' rng'. rec b rng = Some (False, b', rng') \<Longrightarrow> b' = b"
    and z: "b ! r ! c = 0"
  shows "fill_digits rec r c ns b rng = Some (False, b', rng') \<Longrightarrow> b' = b"
proof (induction ns arbitrary: rng)
  case Nil
  then show ?case by simp
next
  case (Cons n ns)
  show ?case
  proof (cases "number_is_valid b r c n")
    case False
    with Cons.prems have "fill_digits rec r c ns b rng = Some (False, b', rng')" by simp
    then show ?thesis by (rule Cons.IH)
  next
    case True
    with Cons.prems obtain ok b1 rng1 where r1: "rec (set_cell b r c n) rng = Some (ok, b1, rng1)"
      by (auto split: option.splits)
    with Cons.prems True have nf: "\<not> ok" by (auto split: if_splits)
    have "b1 = set_cell b r c n"
      using rec [of "set_cell b r c n" rng b1 rng1] r1 nf by simp
    then have restored: "set_cell b1 r c 0 = b" using z by (simp add: set_cell_undo)
    from Cons.prems True r1 nf restored have "fill_digits rec r c ns b rng1 = Some (False, b', rng')"
      by simp
    then show ?thesis by (rule Cons.IH)
  qed
qed

lemma fill_solution_undo:
  "fill_solution depth b rng = Some (False, b', rng') \<Longrightarrow> b' = b"
proof (induction depth arbitrary: b rng b' rng')
  case 0
  then show ?case by simp
next
  case (Suc depth)
  show ?case
  proof (cases "first_empty b (cells_of 6)")
    case None
    with Suc.prems show ?thesis by simp
  next
    case (Some p)
    obtain r c where p: "p = (r, c)" by (cases p)
    from first_empty_Some [OF Some [unfolded p]] have z: "b ! r ! c = 0" by simp
    obtain digits rng1 where sh: "shuffle (map int [1..<7]) rng = (digits, rng1)"
      by (cases "shuffle (map int [1..<7]) rng")
    from Suc.prems Some p sh
    have "fill_digits (fill_solution depth) r c digits b rng1 = Some (False, b', rng')"
      by simp
    then show ?thesis using Suc.IH z by (rule fill_digits_undo [rotated 2])
  qed
qed

lemma solve_digits_undo:
  assumes rec: "\<And>b rng ys b' rng'. rec b rng = Some (ys, b', rng') \<Longrightarrow> b' = b"
    and z: "b ! r ! c = 0"
  shows "solve_digits rec r c ns b rng = Some (ys, b', rng') \<Longrightarrow> b' = b"
proof (induction ns arbitrary: rng ys)
  case Nil
  then show ?case by simp
next
  case (Cons n ns)
  show ?case
  proof (cases "number_is_valid b r c n")
    case False
    with Cons.prems have "solve_digits rec r c ns b rng = Some (ys, b', rng')" by simp
    then show ?thesis by (rule Cons.IH)
  next
    case True
    with Cons.prems obtain y1 b1 rng1 where r1: "rec (set_cell b r c n) rng = Some (y1, b1, rng1)"
      by (auto split: option.splits)
    from rec [OF r1] have "b1 = set_cell b r c n" .
    then have restored: "set_cell b1 r c 0 = b" using z by (simp add: set_cell_undo)
    from Cons.prems True r1 restored obtain zs where
      "solve_digits rec r c ns b rng1 = Some (zs, b', rng')"
      by (auto split: option.splits)
    then show ?thesis by (rule Cons.IH)
  qed
qed

lemma solve_undo:
  "solve depth b rng = Some (ys, b', rng') \<Longrightarrow> b' = b"
proof (induction depth arbitrary: b rng ys b' rng')
  case 0
  then show ?case by simp
next
  case (Suc depth)
  show ?case
  proof (cases "first_empty b (cells_of 6)")
    case None
    with Suc.prems show ?thesis by simp
  next
    case (Some p)
    obtain r c where p: "p = (r, c)" by (cases p)
    from first_empty_Some [OF Some [unfolded p]] have z: "b ! r ! c = 0" by simp
    obtain digits rng1 where sh: "shuffle (map int [1..<7]) rng = (digits, rng1)"
      by (cases "shuffle (map int [1..<7]) rng")
    from Suc.prems Some p sh
    have "solve_digits (solve depth) r c digits b rng1 = Some (ys, b', rng')"
      by simp
    then show ?thesis using Suc.IH z by (rule solve_digits_undo [rotated 2])
  qed
qed

section \<open>Solutions, completions and units\<close>

lemma solution_completes:
  assumes "is_solution n peer h" and "extends n g h"
  shows "completes n peer g h"
  using assms by (simp add: is_solution_def completes_def)

lemma solutions9_subset: "solutions9 regs g \<subseteq> completions9 regs g"
  by (auto simp: solutions9_def completions9_def solution_completes)

lemma solutions6_subset: "solutions6 b \<subseteq> completions6 b"
  by (auto simp: solutions6_def completions6_def solution_completes)

lemma completes_solution:
  assumes ok: "placed_ok n peer g" and cm: "completes n peer g h"
    and sym: "\<And>p q. peer p q \<Longrightarrow> peer q p"
  shows "is_solution n peer h"
proof -
  from cm have wfh: "wf_grid n h" and ext: "extends n g h"
    and fit: "\<And>q. q \<in> set (cells_of n) \<Longrightarrow> cell_at g q = 0 \<Longrightarrow> fits n peer h q"
    by (simp_all add: completes_def)
  have "fits n peer h p" if p: "p \<in> set (cells_of n)" for p
  proof (cases "cell_at g p = 0")
    case True
    with p show ?thesis by (rule fit)
  next
    case False
    with ok p have fg: "fits n peer g p" by (simp add: placed_ok_def)
    from ext p False have hp: "cell_at h p = cell_at g p" by (simp add: extends_def)
    have "cell_at h q \<noteq> cell_at h p" if q: "q \<in> set (cells_of n)" and ne: "q \<noteq> p" and pr: "peer p q" for q
    proof (cases "cell_at g q = 0")
      case True
      with q have "fits n peer h q" by (rule fit)
      moreover from pr have "peer q p" by (rule sym)
      ultimately have "cell_at h p \<noteq> cell_at h q" using p ne by (auto simp: fits_def)
      then show ?thesis by simp
    next
      case False
      with ext q have "cell_at h q = cell_at g q" by (simp add: extends_def)
      moreover from fg q ne pr have "cell_at g q \<noteq> cell_at g p" by (simp add: fits_def)
      ultimately show ?thesis using hp by simp
    qed
    with fg hp show ?thesis by (simp add: fits_def)
  qed
  with wfh show ?thesis by (simp add: is_solution_def)
qed

lemma placed_ok_empty: "\<forall>p \<in> set (cells_of n). cell_at g p = 0 \<Longrightarrow> placed_ok n peer g"
  by (simp add: placed_ok_def)

lemma solutions_eq_completions:
  assumes ok: "placed_ok n peer g" and sym: "\<And>p q. peer p q \<Longrightarrow> peer q p"
  shows "{h. is_solution n peer h \<and> extends n g h} = {h. completes n peer g h}"
proof (intro set_eqI iffI)
  fix h assume "h \<in> {h. is_solution n peer h \<and> extends n g h}"
  then show "h \<in> {h. completes n peer g h}" by (simp add: solution_completes)
next
  fix h assume "h \<in> {h. completes n peer g h}"
  then have cm: "completes n peer g h" by simp
  from completes_solution [OF ok cm sym] cm
  show "h \<in> {h. is_solution n peer h \<and> extends n g h}" by (simp add: completes_def)
qed

lemma set_digits_upto: "set (map int [1..<n + 1]) = {d. 1 \<le> d \<and> d \<le> int n}"
proof (rule set_eqI)
  fix d :: int
  show "d \<in> set (map int [1..<n + 1]) \<longleftrightarrow> d \<in> {d. 1 \<le> d \<and> d \<le> int n}"
  proof
    assume "d \<in> set (map int [1..<n + 1])"
    then obtain k where "d = int k" "1 \<le> k" "k \<le> n" by auto
    then show "d \<in> {d. 1 \<le> d \<and> d \<le> int n}" by simp
  next
    assume "d \<in> {d. 1 \<le> d \<and> d \<le> int n}"
    then have "1 \<le> d" "d \<le> int n" by simp_all
    then have "d = int (nat d)" "1 \<le> nat d" "nat d \<le> n" by linarith+
    then have "d = int (nat d)" "nat d \<in> set [1..<n + 1]" by auto
    then show "d \<in> set (map int [1..<n + 1])" unfolding set_map by (rule image_eqI)
  qed
qed

lemma once_in_unit:
  fixes f :: "cell \<Rightarrow> int"
  assumes dist: "distinct us" and len: "length us = n"
    and range: "\<And>p. p \<in> set us \<Longrightarrow> 1 \<le> f p \<and> f p \<le> int n"
    and inj: "inj_on f (set us)"
    and d: "1 \<le> d" "d \<le> int n"
  shows "length (filter (\<lambda>p. f p = d) us) = 1"
proof -
  have "f ` set us \<subseteq> {1..int n}" using range by auto
  moreover have "card (f ` set us) = card {1..int n}"
    using inj dist len by (simp add: card_image distinct_card)
  ultimately have "f ` set us = {1..int n}" by (intro card_subset_eq) simp_all
  with d have "d \<in> f ` set us" by simp
  then obtain p where p: "p \<in> set us" "f p = d" by (auto simp: image_iff)
  have "{q \<in> set us. f q = d} = {p}"
    using p inj by (auto dest: inj_onD)
  moreover have "length (filter (\<lambda>p. f p = d) us) = card {q \<in> set us. f q = d}"
  proof -
    have "{q. f q = d} \<inter> set us = {q \<in> set us. f q = d}" by auto
    then show ?thesis using distinct_length_filter [OF dist, of "\<lambda>p. f p = d"] by simp
  qed
  ultimately show ?thesis by simp
qed

lemma solution_unit_once:
  assumes sol: "is_solution n peer h" and dist: "distinct us" and len: "length us = n"
    and sub: "set us \<subseteq> set (cells_of n)"
    and pr: "\<And>p q. p \<in> set us \<Longrightarrow> q \<in> set us \<Longrightarrow> peer p q"
  shows "each_symbol_once n h us"
proof -
  have fit: "fits n peer h p" if "p \<in> set us" for p
    using sol sub that by (auto simp: is_solution_def)
  have inj: "inj_on (cell_at h) (set us)"
  proof (rule inj_onI)
    fix p q assume p: "p \<in> set us" and q: "q \<in> set us" and eq: "cell_at h p = cell_at h q"
    show "p = q"
    proof (rule ccontr)
      assume "p \<noteq> q"
      with fit [OF p] pr [OF p q] q sub have "cell_at h q \<noteq> cell_at h p"
        by (auto simp: fits_def)
      with eq show False by simp
    qed
  qed
  have "length (filter (\<lambda>p. cell_at h p = d) us) = 1" if "1 \<le> d" "d \<le> int n" for d
    using dist len _ inj that
  proof (rule once_in_unit)
    fix p assume "p \<in> set us"
    from fit [OF this] show "1 \<le> cell_at h p \<and> cell_at h p \<le> int n" by (simp add: fits_def)
  qed
  then show ?thesis unfolding each_symbol_once_def set_digits_upto by simp
qed

lemma row_unit:
  assumes "r < n"
  shows "distinct (row_cells n r)" "length (row_cells n r) = n"
    "set (row_cells n r) \<subseteq> set (cells_of n)"
  using assms by (auto simp: row_cells_def distinct_map inj_on_def set_cells_of)

lemma column_unit:
  assumes "c < n"
  shows "distinct (column_cells n c)" "length (column_cells n c) = n"
    "set (column_cells n c) \<subseteq> set (cells_of n)"
  using assms by (auto simp: column_cells_def distinct_map inj_on_def set_cells_of)

lemma region_unit:
  shows "distinct (region_cells regs k)" "set (region_cells regs k) \<subseteq> set (cells_of GRID_SIZE)"
  by (simp_all add: region_cells_def distinct_cells_of)

lemma box_unit:
  "distinct (box_cells i j)" "set (box_cells i j) \<subseteq> set (cells_of 6)"
  by (simp_all add: box_cells_def distinct_cells_of)

lemma solution9_units:
  assumes sol: "is_solution GRID_SIZE (peer9 regs) h"
  shows "(\<forall>r<GRID_SIZE. each_symbol_once GRID_SIZE h (row_cells GRID_SIZE r))
    \<and> (\<forall>c<GRID_SIZE. each_symbol_once GRID_SIZE h (column_cells GRID_SIZE c))
    \<and> (\<forall>k. length (region_cells regs k) = GRID_SIZE \<longrightarrow> each_symbol_once GRID_SIZE h (region_cells regs k))"
proof (intro conjI allI impI)
  fix r assume r: "r < GRID_SIZE"
  show "each_symbol_once GRID_SIZE h (row_cells GRID_SIZE r)"
    using sol row_unit [OF r]
    by (rule solution_unit_once) (auto simp: row_cells_def peer9_def)
next
  fix c assume c: "c < GRID_SIZE"
  show "each_symbol_once GRID_SIZE h (column_cells GRID_SIZE c)"
    using sol column_unit [OF c]
    by (rule solution_unit_once) (auto simp: column_cells_def peer9_def)
next
  fix k assume k: "length (region_cells regs k) = GRID_SIZE"
  show "each_symbol_once GRID_SIZE h (region_cells regs k)"
    using sol region_unit(1) k region_unit(2)
    by (rule solution_unit_once) (auto simp: region_cells_def peer9_def)
qed

section \<open>Solution synthesis and clue removal on the 9x9 board\<close>

lemma wf_grid_replicate: "wf_grid n (replicate n (replicate n v))"
  by (simp add: wf_grid_def list_all_length)

lemma cell_at_replicate:
  "p \<in> set (cells_of n) \<Longrightarrow> cell_at (replicate n (replicate n v)) p = v"
  by (cases p) (simp add: cell_at_def set_cells_of)

lemma completes_empty_solution:
  assumes cm: "completes n peer (replicate n (replicate n 0)) h"
    and sym: "\<And>p q. peer p q \<Longrightarrow> peer q p"
  shows "is_solution n peer h"
proof -
  have "placed_ok n peer (replicate n (replicate n 0))"
    by (rule placed_ok_empty) (simp add: cell_at_replicate)
  from this cm sym show ?thesis by (rule completes_solution)
qed

lemma retry_solve_spec:
  assumes wf: "wf_grid GRID_SIZE e"
    and pre: "case sol of Some h \<Rightarrow> h \<in> completions9 regs e | None \<Rightarrow> completions9 regs e = {}"
  shows "\<exists>res rng'. retry_solve k e regs sol rng = Some (res, rng')
     \<and> (case res of Some h \<Rightarrow> h \<in> completions9 regs e | None \<Rightarrow> completions9 regs e = {})"
  using pre
proof (induction k arbitrary: sol rng)
  case 0
  then show ?case by simp
next
  case (Suc k)
  show ?case
  proof (cases sol)
    case (Some h)
    with Suc.prems show ?thesis by simp
  next
    case None
    from solve_backtracking_spec [OF wf, of regs rng]
    obtain res1 rng1 where s1: "solve_backtracking e regs rng = Some (res1, rng1)"
      and p1: "case res1 of Some h \<Rightarrow> h \<in> completions9 regs e | None \<Rightarrow> completions9 regs e = {}"
      by blast
    from Suc.IH [OF p1, of rng1] None s1 show ?thesis by simp
  qed
qed

lemma generate_full_solution_spec:
  "\<exists>res rng'. generate_full_solution regs rng = Some (res, rng')
     \<and> (case res of
          Inr h \<Rightarrow> is_solution GRID_SIZE (peer9 regs) h
        | Inl e \<Rightarrow> e = RuntimeError \<and> (\<forall>h. \<not> is_solution GRID_SIZE (peer9 regs) h))"
proof -
  let ?e = "replicate GRID_SIZE (replicate GRID_SIZE (0::int))"
  have wf: "wf_grid GRID_SIZE ?e" by (rule wf_grid_replicate)
  have sol: "is_solution GRID_SIZE (peer9 regs) h" if "h \<in> completions9 regs ?e" for h
    using that completes_empty_solution [of GRID_SIZE "peer9 regs" h, OF _ peer9_sym]
    by (simp add: completions9_def)
  have none: "\<not> is_solution GRID_SIZE (peer9 regs) h" if "completions9 regs ?e = {}" for h
  proof
    assume "is_solution GRID_SIZE (peer9 regs) h"
    moreover have "extends GRID_SIZE ?e h" by (simp add: extends_def cell_at_replicate)
    ultimately have "h \<in> completions9 regs ?e"
      by (simp add: completions9_def solution_completes)
    with that show False by simp
  qed
  from solve_backtracking_spec [OF wf, of regs rng]
  obtain res1 rng1 where s1: "solve_backtracking ?e regs rng = Some (res1, rng1)"
    and p1: "case res1 of Some h \<Rightarrow> h \<in> completions9 regs ?e | None \<Rightarrow> completions9 regs ?e = {}"
    by blast
  from retry_solve_spec [OF wf p1, of 5 rng1]
  obtain res2 rng2 where s2: "retry_solve 5 ?e regs res1 rng1 = Some (res2, rng2)"
    and p2: "case res2 of Some h \<Rightarrow> h \<in> completions9 regs ?e | None \<Rightarrow> completions9 regs ?e = {}"
    by blast
  show ?thesis
  proof (cases res2)
    case None
    with s1 s2 p2 none show ?thesis by (simp add: generate_full_solution_def Let_def)
  next
    case (Some h)
    with s1 s2 p2 sol show ?thesis by (simp add: generate_full_solution_def Let_def)
  qed
qed

lemma solution_filled:
  assumes "is_solution n peer h" and "p \<in> set (cells_of n)"
  shows "cell_at h p \<noteq> 0"
  using assms by (auto simp: is_solution_def fits_def)

lemma completions_of_solution:
  assumes sol: "is_solution n peer h"
  shows "{k. completes n peer h k} = {h}"
proof -
  from sol have wf: "wf_grid n h" by (simp add: is_solution_def)
  have "\<forall>p \<in> set (cells_of n). cell_at h p \<noteq> 0" using sol by (simp add: solution_filled)
  from completes_full [OF wf this] show ?thesis by auto
qed

lemma extends_erase:
  assumes wf: "wf_grid n g" and p: "(r, c) \<in> set (cells_of n)" and ext: "extends n g h"
  shows "extends n (set_cell g r c 0) h"
  unfolding extends_def
proof (intro ballI impI)
  fix q assume q: "q \<in> set (cells_of n)" and nz: "cell_at (set_cell g r c 0) q \<noteq> 0"
  from nz cell_at_set_cell [OF wf p q, of 0] have "cell_at (set_cell g r c 0) q = cell_at g q"
    by (auto split: if_splits)
  with nz ext q show "cell_at h q = cell_at (set_cell g r c 0) q" by (simp add: extends_def)
qed

lemma unique_completion:
  assumes "h \<in> A" and "finite A" and "card A \<le> 1"
  shows "A = {h}"
proof -
  from assms have "card A = 1" by (cases "card A") auto
  then obtain x where "A = {x}" by (rule card_1_singletonE)
  with assms(1) show ?thesis by simp
qed

lemma remove_clues_spec:
  assumes sol: "is_solution GRID_SIZE (peer9 regs) s"
    and wf: "wf_grid GRID_SIZE grid" and ext: "extends GRID_SIZE grid s"
    and uniq: "completions9 regs grid = {s}"
    and cells: "set cells \<subseteq> set (cells_of GRID_SIZE)"
  shows "\<exists>puzzle rng'. remove_clues regs target cells grid current rng = Some (puzzle, rng')
      \<and> wf_grid GRID_SIZE puzzle \<and> extends GRID_SIZE puzzle s \<and> completions9 regs puzzle = {s}"
  using wf ext uniq cells
proof (induction cells arbitrary: grid current rng)
  case Nil
  then show ?case by simp
next
  case (Cons p cells)
  obtain r c where p: "p = (r, c)" by (cases p)
  show ?case
  proof (cases "current \<le> target")
    case True
    with Cons.prems p show ?thesis by simp
  next
    case False
    let ?g1 = "set_cell grid r c 0"
    from Cons.prems(4) p have cell: "(r, c) \<in> set (cells_of GRID_SIZE)" and rest: "set cells \<subseteq> set (cells_of GRID_SIZE)"
      by simp_all
    have wf1: "wf_grid GRID_SIZE ?g1" using Cons.prems(1) by (rule wf_grid_set_cell)
    have ext1: "extends GRID_SIZE ?g1 s" using Cons.prems(1) cell Cons.prems(2) by (rule extends_erase)
    from count_solutions_spec [OF wf1, of regs 2 rng]
    obtain rng1 where cs: "count_solutions ?g1 regs 2 rng = Some (min 2 (int (card (completions9 regs ?g1))), rng1)"
      by auto
    have restore: "set_cell ?g1 r c (grid ! r ! c) = grid"
      by (simp add: set_cell_twice set_cell_same)
    show ?thesis
    proof (cases "min 2 (int (card (completions9 regs ?g1))) = 1")
      case True
      then have "card (completions9 regs ?g1) \<le> 1" by simp
      moreover have "s \<in> completions9 regs ?g1"
        using sol ext1 by (simp add: completions9_def solution_completes)
      moreover have "finite (completions9 regs ?g1)"
        by (simp add: completions9_def finite_completes)
      ultimately have u1: "completions9 regs ?g1 = {s}" by (intro unique_completion)
      from False p cs True have step: "remove_clues regs target (p # cells) grid current rng
          = remove_clues regs target cells ?g1 (current - 1) rng1"
        by (simp add: Let_def)
      from Cons.IH [OF wf1 ext1 u1 rest] show ?thesis unfolding step .
    next
      case no: False
      from False p cs no restore have step: "remove_clues regs target (p # cells) grid current rng
          = remove_clues regs target cells grid current rng1"
        by (simp add: Let_def)
      from Cons.IH [OF Cons.prems(1,2,3) rest] show ?thesis unfolding step .
    qed
  qed
qed

lemma extends_refl: "extends n g g"
  by (simp add: extends_def)

lemma generate_puzzle_spec:
  assumes sol: "is_solution GRID_SIZE (peer9 regs) s"
  shows "\<exists>puzzle rng'. generate_puzzle_from_solution s regs target rng = Some (puzzle, rng')
      \<and> wf_grid GRID_SIZE puzzle \<and> extends GRID_SIZE puzzle s \<and> completions9 regs puzzle = {s}"
proof -
  obtain cells rng1 where sh: "shuffle (cells_of GRID_SIZE) rng = (cells, rng1)"
    by (cases "shuffle (cells_of GRID_SIZE) rng")
  from sol have wf: "wf_grid GRID_SIZE s" by (simp add: is_solution_def)
  have uniq: "completions9 regs s = {s}"
    unfolding completions9_def using sol by (rule completions_of_solution)
  have sub: "set cells \<subseteq> set (cells_of GRID_SIZE)" using shuffle_set [OF sh] by simp
  from remove_clues_spec [OF sol wf extends_refl uniq sub]
  show ?thesis by (simp add: generate_puzzle_from_solution_def sh)
qed

section \<open>Solution synthesis on the 6x6 board\<close>

lemma placed_ok_set_cell:
  assumes ok: "placed_ok n peer g" and wf: "wf_grid n g" and p: "(r, c) \<in> set (cells_of n)"
    and leg: "legal n peer g (r, c) d" and sym: "\<And>p q. peer p q \<Longrightarrow> peer q p"
  shows "placed_ok n peer (set_cell g r c d)"
  unfolding placed_ok_def
proof (intro ballI impI)
  let ?g' = "set_cell g r c d"
  fix q assume q: "q \<in> set (cells_of n)" and nz: "cell_at ?g' q \<noteq> 0"
  have upd: "cell_at ?g' x = (if x = (r, c) then d else cell_at g x)" if "x \<in> set (cells_of n)" for x
    using wf p that by (rule cell_at_set_cell)
  from leg have d1: "1 \<le> d" and dn: "d \<le> int n"
    and free: "\<And>x. x \<in> set (cells_of n) \<Longrightarrow> x \<noteq> (r, c) \<Longrightarrow> peer (r, c) x \<Longrightarrow> cell_at g x \<noteq> d"
    by (simp_all add: legal_def)
  show "fits n peer ?g' q"
  proof (cases "q = (r, c)")
    case True
    have "cell_at ?g' x \<noteq> d" if "x \<in> set (cells_of n)" "x \<noteq> (r, c)" "peer (r, c) x" for x
      using upd [OF that(1)] that free by simp
    with True upd [OF q] d1 dn show ?thesis by (simp add: fits_def)
  next
    case False
    with upd [OF q] nz have gq: "cell_at ?g' q = cell_at g q" "cell_at g q \<noteq> 0" by simp_all
    with ok q have fq: "fits n peer g q" by (simp add: placed_ok_def)
    have "cell_at ?g' x \<noteq> cell_at g q" if x: "x \<in> set (cells_of n)" and ne: "x \<noteq> q" and pr: "peer q x" for x
    proof (cases "x = (r, c)")
      case True
      with pr have "peer (r, c) q" by (simp add: sym)
      from free [OF q False this] True upd [OF x] show ?thesis by simp
    next
      case other: False
      with upd [OF x] fq x ne pr show ?thesis by (simp add: fits_def)
    qed
    with fq gq show ?thesis by (simp add: fits_def)
  qed
qed

lemma box_loop_spec:
  assumes rec: "\<And>av b1 rng. set av \<subseteq> set avail \<Longrightarrow> wf_grid 6 b1 \<Longrightarrow> placed_ok 6 peer6 b1 \<Longrightarrow>
        (\<forall>q \<in> set rest. cell_at b1 q = 0) \<Longrightarrow>
        (case rec av b1 rng of (ok, b', rng') \<Rightarrow>
           if ok then wf_grid 6 b' \<and> placed_ok 6 peer6 b' \<and> keeps rest b1 b' else b' = b1)"
    and wf: "wf_grid 6 b" and ok: "placed_ok 6 peer6 b"
    and p: "(r, c) \<in> set (cells_of 6)" and z: "cell_at b (r, c) = 0"
    and rest: "\<forall>q \<in> set rest. cell_at b q = 0" "(r, c) \<notin> set rest" "set rest \<subseteq> set (cells_of 6)"
    and av: "set avail \<subseteq> {d. 1 \<le> d \<and> d \<le> 6}" and idx: "\<forall>i \<in> set ixs. i < length avail"
  shows "case box_loop rec r c avail ixs b rng of (ok, b', rng') \<Rightarrow>
           if ok then wf_grid 6 b' \<and> placed_ok 6 peer6 b' \<and> keeps ((r, c) # rest) b b' else b' = b"
  using idx
proof (induction ixs arbitrary: rng)
  case Nil
  then show ?case by simp
next
  case (Cons i ixs)
  let ?n = "avail ! i"
  from Cons.prems have i: "i < length avail" and ixs: "\<forall>i \<in> set ixs. i < length avail" by simp_all
  from i av have n: "1 \<le> ?n" "?n \<le> 6" by (auto simp: subset_iff)
  from p have r: "r < 6" and c: "c < 6" by (simp_all add: set_cells_of)
  from z have z': "b ! r ! c = 0" by (simp add: cell_at_def)
  show ?case
  proof (cases "number_is_valid b r c ?n")
    case False
    with Cons.IH [OF ixs, of rng] show ?thesis by (simp add: Let_def)
  next
    case True
    let ?b1 = "set_cell b r c ?n"
    let ?av = "take i avail @ drop (Suc i) avail"
    from True legal6_valid [OF r c z' n] have leg: "legal 6 peer6 b (r, c) ?n" by simp
    have wf1: "wf_grid 6 ?b1" using wf by (rule wf_grid_set_cell)
    have ok1: "placed_ok 6 peer6 ?b1" using ok wf p leg peer6_sym by (rule placed_ok_set_cell)
    have upd: "cell_at ?b1 q = (if q = (r, c) then ?n else cell_at b q)" if "q \<in> set (cells_of 6)" for q
      using wf p that by (rule cell_at_set_cell)
    have rest1: "\<forall>q \<in> set rest. cell_at ?b1 q = 0"
      using rest upd by auto
    have sub: "set ?av \<subseteq> set avail"
      using set_take_subset [of i avail] set_drop_subset [of "Suc i" avail] by auto
    obtain ok2 b2 rng2 where r2: "rec ?av ?b1 rng = (ok2, b2, rng2)" by (cases "rec ?av ?b1 rng")
    from rec [OF sub wf1 ok1 rest1, of rng] r2
    have p2: "if ok2 then wf_grid 6 b2 \<and> placed_ok 6 peer6 b2 \<and> keeps rest ?b1 b2 else b2 = ?b1"
      by simp
    show ?thesis
    proof (cases ok2)
      case True
      with p2 have k: "keeps rest ?b1 b2" and good: "wf_grid 6 b2" "placed_ok 6 peer6 b2" by simp_all
      have "keeps ((r, c) # rest) b b2"
        unfolding keeps_def
      proof (intro ballI impI)
        fix q assume q: "q \<in> set (cells_of 6)" and out: "q \<notin> set ((r, c) # rest)"
        then have "cell_at b2 q = cell_at ?b1 q" using k by (simp add: keeps_def)
        with upd [OF q] out show "cell_at b2 q = cell_at b q" by simp
      qed
      with good \<open>number_is_valid b r c ?n\<close> r2 True show ?thesis by (simp add: Let_def)
    next
      case False
      with p2 have "b2 = ?b1" by simp
      then have "set_cell b2 r c 0 = b" using z' by (simp add: set_cell_undo)
      with \<open>number_is_valid b r c ?n\<close> r2 False
      have "box_loop rec r c avail (i # ixs) b rng = box_loop rec r c avail ixs b rng2"
        by (simp add: Let_def)
      with Cons.IH [OF ixs, of rng2] show ?thesis by simp
    qed
  qed
qed

lemma helper_spec:
  assumes "wf_grid 6 b" and "placed_ok 6 peer6 b" and "distinct cells"
    and "set cells \<subseteq> set (cells_of 6)" and "\<forall>q \<in> set cells. cell_at b q = 0"
    and "set avail \<subseteq> {d. 1 \<le> d \<and> d \<le> 6}"
  shows "case helper cells avail b rng of (ok, b', rng') \<Rightarrow>
           if ok then wf_grid 6 b' \<and> placed_ok 6 peer6 b' \<and> keeps cells b b' else b' = b"
  using assms
proof (induction cells arbitrary: avail b rng)
  case Nil
  then show ?case by (simp add: keeps_def)
next
  case (Cons p rest)
  obtain r c where p: "p = (r, c)" by (cases p)
  obtain avail' rng1 where sh: "shuffle avail rng = (avail', rng1)" by (cases "shuffle avail rng")
  have av': "set avail' \<subseteq> {d. 1 \<le> d \<and> d \<le> 6}" using shuffle_set [OF sh] Cons.prems(6) by simp
  have rec: "case helper rest av b1 rg of (ok, b', rng') \<Rightarrow>
           if ok then wf_grid 6 b' \<and> placed_ok 6 peer6 b' \<and> keeps rest b1 b' else b' = b1"
    if "set av \<subseteq> set avail'" "wf_grid 6 b1" "placed_ok 6 peer6 b1" "\<forall>q \<in> set rest. cell_at b1 q = 0"
    for av b1 rg
    using that Cons.prems(3,4) av' by (intro Cons.IH) auto
  have "case box_loop (helper rest) r c avail' [0..<length avail'] b rng1 of (ok, b', rng') \<Rightarrow>
           if ok then wf_grid 6 b' \<and> placed_ok 6 peer6 b' \<and> keeps ((r, c) # rest) b b' else b' = b"
    using rec Cons.prems p av' by (intro box_loop_spec) auto
  with sh show ?case unfolding p by simp
qed

lemma fill_box_cells:
  "concat (map (\<lambda>r. map (\<lambda>c. (start_row + r, start_col + c)) [0..<3]) [0..<2])
    = [(start_row, start_col), (start_row, start_col + 1), (start_row, start_col + 2),
       (start_row + 1, start_col), (start_row + 1, start_col + 1), (start_row + 1, start_col + 2)]"
  by (simp add: upt_rec numeral_eq_Suc)

text \<open>
  Claim C9. \<open>compute_candidates\<close> (the spec's \<open>legal_symbols\<close>) returns exactly the
  symbols of \<open>1..9\<close> that occur neither in row \<open>r\<close>, nor in column \<open>c\<close>, nor in
  the region of \<open>(r, c)\<close>; it returns the empty list on a filled cell; each symbol is
  listed once. The source function assigns to nothing but its local set and draws no
  random number, so its model takes the board and the region map and returns only the
  list: the same arguments give the same list.
\<close>

theorem compute_candidates_legal_symbols:
  assumes "wf_grid GRID_SIZE grid" and "wf_grid GRID_SIZE regions"
    and "r < GRID_SIZE" and "c < GRID_SIZE"
  shows "(grid ! r ! c \<noteq> 0 \<longrightarrow> compute_candidates grid regions r c = [])
    \<and> (grid ! r ! c = 0 \<longrightarrow> set (compute_candidates grid regions r c) =
          {d. 1 \<le> d \<and> d \<le> 9 \<and> (\<forall>j<9. grid ! r ! j \<noteq> d) \<and> (\<forall>i<9. grid ! i ! c \<noteq> d) \<and>
              (\<forall>i<9. \<forall>j<9. regions ! i ! j = regions ! r ! c \<longrightarrow> grid ! i ! j \<noteq> d)})
    \<and> distinct (compute_candidates grid regions r c)"
proof (intro conjI impI)
  assume "grid ! r ! c \<noteq> 0"
  then show "compute_candidates grid regions r c = []"
    by (simp add: compute_candidates_def)
next
  assume "grid ! r ! c = 0"
  then show "set (compute_candidates grid regions r c) =
          {d. 1 \<le> d \<and> d \<le> 9 \<and> (\<forall>j<9. grid ! r ! j \<noteq> d) \<and> (\<forall>i<9. grid ! i ! c \<noteq> d) \<and>
              (\<forall>i<9. \<forall>j<9. regions ! i ! j = regions ! r ! c \<longrightarrow> grid ! i ! j \<noteq> d)}"
    using set_compute_candidates [OF assms(1) assms(3), of c regions]
    by (simp add: GRID_SIZE_def)
next
  show "distinct (compute_candidates grid regions r c)"
    by (simp add: compute_candidates_def DIGITS_def distinct_map)
qed

theorem compute_candidates_legal_symbols_witness:
  "wf_grid GRID_SIZE ex_partial \<and> wf_grid GRID_SIZE ex_regions \<and> (0::nat) < GRID_SIZE \<and> (3::nat) < GRID_SIZE
   \<and> ex_partial ! 0 ! 3 = 0
   \<and> set (compute_candidates ex_partial ex_regions 0 3) =
          {d. 1 \<le> d \<and> d \<le> 9 \<and> (\<forall>j<9. ex_partial ! 0 ! j \<noteq> d) \<and> (\<forall>i<9. ex_partial ! i ! 3 \<noteq> d) \<and>
              (\<forall>i<9. \<forall>j<9. ex_regions ! i ! j = ex_regions ! 0 ! 3 \<longrightarrow> ex_partial ! i ! j \<noteq> d)}
   \<and> compute_candidates ex_partial ex_regions 0 3 = [1]"
proof -
  have g: "wf_grid GRID_SIZE ex_partial" by code_simp
  have rg: "wf_grid GRID_SIZE ex_regions" by code_simp
  have r: "(0::nat) < GRID_SIZE" and c: "(3::nat) < GRID_SIZE" by (simp_all add: GRID_SIZE_def)
  have z: "ex_partial ! 0 ! 3 = 0" by code_simp
  have v: "compute_candidates ex_partial ex_regions 0 3 = [1]" by code_simp
  from compute_candidates_legal_symbols [OF g rg r c] z g rg r c v show ?thesis by blast
qed

text \<open>
  Claim C10. Whenever a search call fails, the board is back in the state in which the
  call received it: the construction-mode searches \<open>dfs\<close> of \<open>solve_backtracking\<close>
  and \<open>fill_solution\<close> when they return \<open>False\<close>, the counting-mode search \<open>dfs\<close>
  of \<open>count_solutions\<close> when it returns \<open>False\<close> (its branch is exhausted below
  the cutoff), and the generator \<open>solve\<close> when it is exhausted.
\<close>

theorem undo_on_backtrack:
  "(dfs_solve depth regions g rng = Some (False, g', rng') \<longrightarrow> g' = g)
   \<and> (dfs_count depth regions limit cnt g rng = Some (False, cnt', g', rng') \<longrightarrow> g' = g)
   \<and> (fill_solution depth b rng = Some (False, b', rng') \<longrightarrow> b' = b)
   \<and> (solve depth b rng = Some (ys, b', rng') \<longrightarrow> b' = b)"
  using dfs_solve_undo [of depth regions g rng g' rng']
    dfs_count_undo [of depth regions limit cnt g rng False cnt' g' rng']
    fill_solution_undo [of depth b rng b' rng']
    solve_undo [of depth b rng ys b' rng']
  by blast

theorem undo_on_backtrack_witness:
  "(\<exists>g' rng'. dfs_solve max_depth ex_regions ex_stuck [] = Some (False, g', rng') \<and> g' = ex_stuck)
   \<and> (\<exists>cnt' g' rng'. dfs_count max_depth ex_regions 2 0 ex_stuck [] = Some (False, cnt', g', rng') \<and> g' = ex_stuck)
   \<and> (\<exists>b' rng'. fill_solution max_depth6 ex6_stuck [] = Some (False, b', rng') \<and> b' = ex6_stuck)
   \<and> (\<exists>ys b' rng'. solve max_depth6 ex6_stuck [] = Some (ys, b', rng') \<and> b' = ex6_stuck)"
proof -
  have 1: "map_option fst (dfs_solve max_depth ex_regions ex_stuck []) = Some False"
    by code_simp
  have 2: "map_option fst (dfs_count max_depth ex_regions 2 0 ex_stuck []) = Some False"
    by code_simp
  have 3: "map_option fst (fill_solution max_depth6 ex6_stuck []) = Some False"
    by code_simp
  have 4: "map_option fst (solve max_depth6 ex6_stuck []) = Some []"
    by code_simp
  from 1 obtain g1 r1 where a: "dfs_solve max_depth ex_regions ex_stuck [] = Some (False, g1, r1)"
    by auto
  from 2 obtain c2 g2 r2 where b: "dfs_count max_depth ex_regions 2 0 ex_stuck [] = Some (False, c2, g2, r2)"
    by auto
  from 3 obtain b3 r3 where c: "fill_solution max_depth6 ex6_stuck [] = Some (False, b3, r3)"
    by auto
  from 4 obtain b4 r4 where d: "solve max_depth6 ex6_stuck [] = Some ([], b4, r4)"
    by auto
  from undo_on_backtrack [where depth = max_depth and regions = ex_regions and g = ex_stuck
      and rng = "[]" and g' = g1 and rng' = r1] a
  have "g1 = ex_stuck" by blast
  moreover from undo_on_backtrack [where depth = max_depth and regions = ex_regions and g = ex_stuck
      and rng = "[]" and g' = g2 and rng' = r2 and limit = 2 and cnt = 0 and cnt' = c2] b
  have "g2 = ex_stuck" by blast
  moreover from undo_on_backtrack [where depth = max_depth6 and b = ex6_stuck
      and rng = "[]" and b' = b3 and rng' = r3] c
  have "b3 = ex6_stuck" by blast
  moreover from undo_on_backtrack [where depth = max_depth6 and b = ex6_stuck
      and rng = "[]" and b' = b4 and rng' = r4 and ys = "[]"] d
  have "b4 = ex6_stuck" by blast
  ultimately show ?thesis using a b c d by blast
qed

end
